theory Spec2Isabelle
  imports Main
begin

section \<open>Strings of the program\<close>

text \<open>
  The program is a Node.js script. Its strings are sequences of UTF-16 code units, so a
  string is modelled as a list of code units, each a natural number. String literals of
  the source are written with \<open>lit\<close>, which maps every character of an ASCII literal to
  its code unit.
\<close>

type_synonym code_unit = nat
type_synonym jsstring = "code_unit list"

definition lit :: "string \<Rightarrow> jsstring" where
  "lit s = map of_char s"

definition LF :: code_unit where
  "LF = 10"

definition CR :: code_unit where
  "CR = 13"

text \<open>
  The regular expression atom \<open>.\<close> (without the \<open>s\<close> flag) matches every code unit
  except the four line terminators: U+000A, U+000D, U+2028 and U+2029.
\<close>

definition is_line_terminator :: "code_unit \<Rightarrow> bool" where
  "is_line_terminator c \<longleftrightarrow> c = 10 \<or> c = 13 \<or> c = 8232 \<or> c = 8233"

text \<open>
  The class \<open>\s\<close> and \<open>String.prototype.trim\<close> use the same set: the white space code
  points U+0009, U+000B, U+000C, U+0020, U+00A0, U+1680, U+2000 to U+200A, U+202F,
  U+205F, U+3000 and U+FEFF, together with the four line terminators.
\<close>

definition is_space :: "code_unit \<Rightarrow> bool" where
  "is_space c \<longleftrightarrow>
     c = 9 \<or> c = 10 \<or> c = 11 \<or> c = 12 \<or> c = 13 \<or> c = 32 \<or> c = 160 \<or> c = 5760 \<or>
     (8192 \<le> c \<and> c \<le> 8202) \<or> c = 8232 \<or> c = 8233 \<or> c = 8239 \<or> c = 8287 \<or>
     c = 12288 \<or> c = 65279"

text \<open>The class \<open>[A-Za-z0-9+/=]\<close>.\<close>

definition is_base64 :: "code_unit \<Rightarrow> bool" where
  "is_base64 c \<longleftrightarrow>
     (65 \<le> c \<and> c \<le> 90) \<or> (97 \<le> c \<and> c \<le> 122) \<or> (48 \<le> c \<and> c \<le> 57) \<or>
     c = 43 \<or> c = 47 \<or> c = 61"

text \<open>\<open>str.trim()\<close>: white space is removed from both ends.\<close>

definition trim :: "jsstring \<Rightarrow> jsstring" where
  "trim s = rev (dropWhile is_space (rev (dropWhile is_space s)))"

text \<open>\<open>xs.join(sep)\<close>: the separator goes between consecutive elements only.\<close>

fun join :: "jsstring \<Rightarrow> jsstring list \<Rightarrow> jsstring" where
  "join sep [] = []"
| "join sep [x] = x"
| "join sep (x # y # ys) = x @ sep @ join sep (y # ys)"

section \<open>Encoder\<close>

text \<open>
  \<^verbatim>\<open>str.replace(/(.{1,64})/g, '$1\n')\<close>: scanning from the left, every maximal run of
  at most 64 code units that are not line terminators is followed by a line feed in the
  result; a line terminator, where the pattern cannot match, is copied as it is. The
  first code unit of a run is \<open>c\<close>, the at most 63 that follow are taken from \<open>cs\<close>.
\<close>

function replace_chunks :: "jsstring \<Rightarrow> jsstring" where
  "replace_chunks [] = []"
| "replace_chunks (c # cs) =
     (if is_line_terminator c then c # replace_chunks cs
      else c # take 63 (takeWhile (\<lambda>x. \<not> is_line_terminator x) cs) @ [LF] @
           replace_chunks
             (drop (length (take 63 (takeWhile (\<lambda>x. \<not> is_line_terminator x) cs))) cs))"
  by pat_completeness auto
termination
  by (relation "measure length") auto

definition wrap64 :: "jsstring \<Rightarrow> jsstring" where
  "wrap64 str = trim (replace_chunks str)"

definition header :: jsstring where
  "header = lit ''-----BEGIN CERTIFICATE-----''"

definition footer :: jsstring where
  "footer = lit ''-----END CERTIFICATE-----''"

text \<open>
  The body of the \<open>matches.forEach\<close> callback: the payload is cleaned of every code unit
  outside the base64 alphabet, then wrapped.
\<close>

definition cleanedB64 :: "jsstring \<Rightarrow> jsstring" where
  "cleanedB64 b64 = filter is_base64 b64"

definition encode :: "jsstring \<Rightarrow> jsstring" where
  "encode b64 = header @ [LF] @ wrap64 (cleanedB64 b64) @ [LF] @ footer @ [LF]"

text \<open>
  The body of a PEM text, as a reader of the file takes it: what stands between the
  header line and the footer line. \<open>decode_body\<close> drops the line breaks from it.
\<close>

definition pem_body :: "jsstring \<Rightarrow> jsstring option" where
  "pem_body p =
     (let h = header @ [LF]; f = LF # footer @ [LF]
      in if length h + length f \<le> length p \<and> take (length h) p = h \<and>
            drop (length p - length f) p = f
         then Some (drop (length h) (take (length p - length f) p))
         else None)"

definition decode_body :: "jsstring \<Rightarrow> jsstring option" where
  "decode_body p = map_option (filter (\<lambda>c. c \<noteq> LF)) (pem_body p)"

section \<open>Extractor\<close>

subsection \<open>Searching and splitting\<close>

text \<open>
  \<open>find_sub pat s\<close> is the leftmost occurrence of the literal \<open>pat\<close> in \<open>s\<close>: the text
  before it and the text after it.
\<close>

fun find_sub :: "jsstring \<Rightarrow> jsstring \<Rightarrow> (jsstring \<times> jsstring) option" where
  "find_sub pat [] = (if pat = [] then Some ([], []) else None)"
| "find_sub pat (c # cs) =
     (if take (length pat) (c # cs) = pat then Some ([], drop (length pat) (c # cs))
      else (case find_sub pat cs of
              None \<Rightarrow> None
            | Some (before, after) \<Rightarrow> Some (c # before, after)))"

lemma find_sub_length:
  "find_sub pat s = Some (b, a) \<Longrightarrow> length a + length pat \<le> length s"
proof (induction s arbitrary: b)
  case Nil
  then show ?case by (simp split: if_splits)
next
  case (Cons c cs)
  show ?case
  proof (cases "take (length pat) (c # cs) = pat")
    case True
    have "length (take (length pat) (c # cs)) \<le> length (c # cs)"
      by (simp del: take_Suc_Cons)
    with True have "length pat \<le> length (c # cs)"
      by (simp only:)
    with True Cons.prems show ?thesis by auto
  next
    case False
    with Cons.prems obtain b' where "find_sub pat cs = Some (b', a)"
      by (auto split: option.splits)
    from Cons.IH[OF this] show ?thesis by simp
  qed
qed

text \<open>
  \<^verbatim>\<open>raw.matchAll(/-----BEGIN CERTIFICATE-----(.*?)-----END CERTIFICATE-----/gs)\<close>, the
  list of the captured groups \<open>m[1]\<close>. The header is matched at its leftmost occurrence;
  the lazy group, where \<open>.\<close> matches every code unit (flag \<open>s\<close>), ends at the first footer
  after it; the scan goes on behind that footer. Without a footer behind a header there
  is no further match.
\<close>

function pemRegex :: "jsstring \<Rightarrow> jsstring list" where
  "pemRegex raw =
     (case find_sub header raw of
        None \<Rightarrow> []
      | Some (skipped, r1) \<Rightarrow>
          (case find_sub footer r1 of
             None \<Rightarrow> []
           | Some (body, r2) \<Rightarrow> body # pemRegex r2))"
  by pat_completeness auto
termination
proof (relation "measure length")
  show "wf (measure length)" by simp
next
  fix raw x2 skipped r1 x2a body r2 :: jsstring and y z
  assume a: "find_sub header raw = Some y" "(skipped, r1) = y"
    and b: "find_sub footer r1 = Some z" "(body, r2) = z"
  from a have "length r1 + length header \<le> length raw"
    using find_sub_length[of header raw skipped r1] by simp
  moreover from b have "length r2 + length footer \<le> length r1"
    using find_sub_length[of footer r1 body r2] by simp
  moreover have "length header = 27" by (simp add: header_def lit_def)
  ultimately show "(r2, raw) \<in> measure length" by simp
qed

declare pemRegex.simps [simp del]

text \<open>\<^verbatim>\<open>s.replace(/\r?\n/g, '')\<close>: every line feed goes, with a carriage return right before it.\<close>

fun strip_newlines :: "jsstring \<Rightarrow> jsstring" where
  "strip_newlines [] = []"
| "strip_newlines (c # cs) =
     (if c = LF then strip_newlines cs
      else if c = CR \<and> cs \<noteq> [] \<and> hd cs = LF then strip_newlines (tl cs)
      else c # strip_newlines cs)"

text \<open>
  The same removal told by positions, for the statements about the PEM scan: position \<open>k\<close>
  of \<open>b\<close> belongs to a line break when it holds a line feed, or a carriage return with
  a line feed right behind it.
\<close>

definition line_break_at :: "jsstring \<Rightarrow> nat \<Rightarrow> bool" where
  "line_break_at b k \<longleftrightarrow>
     b ! k = LF \<or> (b ! k = CR \<and> Suc k < length b \<and> b ! Suc k = LF)"

text \<open>\<^verbatim>\<open>s.split(/\r?\n/)\<close>: the separators are the same; the empty string gives one empty line.\<close>

fun split_lines :: "jsstring \<Rightarrow> jsstring list" where
  "split_lines [] = [[]]"
| "split_lines (c # cs) =
     (if c = LF then [] # split_lines cs
      else if c = CR \<and> cs \<noteq> [] \<and> hd cs = LF then [] # split_lines (tl cs)
      else (case split_lines cs of
              [] \<Rightarrow> [[c]]
            | l # ls \<Rightarrow> (c # l) # ls))"

text \<open>\<^verbatim>\<open>s.replace(/\s+/g, '')\<close>.\<close>

definition strip_spaces :: "jsstring \<Rightarrow> jsstring" where
  "strip_spaces s = filter (\<lambda>c. \<not> is_space c) s"

text \<open>
  Matching with the flag \<open>i\<close> (and without \<open>u\<close>) compares code units after
  canonicalisation, which identifies the two cases of an ASCII letter and never maps a
  code unit above 127 to one below 128: for the ASCII patterns of this program it is
  equality after lower-casing the ASCII capitals.
\<close>

definition lower :: "code_unit \<Rightarrow> code_unit" where
  "lower c = (if 65 \<le> c \<and> c \<le> 90 then c + 32 else c)"

text \<open>\<^verbatim>\<open>/^pat$/i.test(line)\<close> for a literal \<open>pat\<close>.\<close>

definition test_whole_i :: "jsstring \<Rightarrow> jsstring \<Rightarrow> bool" where
  "test_whole_i pat line \<longleftrightarrow> map lower line = map lower pat"

text \<open>\<^verbatim>\<open>/^pat/i.test(line)\<close> for a literal \<open>pat\<close>.\<close>

definition test_prefix_i :: "jsstring \<Rightarrow> jsstring \<Rightarrow> bool" where
  "test_prefix_i pat line \<longleftrightarrow> map lower (take (length pat) line) = map lower pat"

subsection \<open>The three strategies\<close>

text \<open>Strategy 1, the first value of the variable \<open>matches\<close>.\<close>

definition pemMatches :: "jsstring \<Rightarrow> jsstring list" where
  "pemMatches raw = map (\<lambda>m. trim (strip_newlines m)) (pemRegex raw)"

text \<open>Strategy 2.\<close>

definition cleaned :: "jsstring \<Rightarrow> jsstring" where
  "cleaned raw =
     join [LF]
       (filter (\<lambda>l. l \<noteq> [] \<and> \<not> test_prefix_i (lit ''subject='') l \<and>
                    \<not> test_prefix_i (lit ''issuer='') l)
          (map trim (split_lines raw)))"

definition base64_class :: "code_unit \<Rightarrow> bool" where
  "base64_class c \<longleftrightarrow> is_base64 c \<or> is_space c"

text \<open>
  \<^verbatim>\<open>s.matchAll(/([A-Za-z0-9+/=\s]{200,})/g)\<close>: the maximal runs of the class that are
  at least 200 code units long. A shorter run matches at none of its positions.
\<close>

function base64Regex :: "jsstring \<Rightarrow> jsstring list" where
  "base64Regex [] = []"
| "base64Regex (c # cs) =
     (if base64_class c
      then (if 200 \<le> length (c # takeWhile base64_class cs)
            then (c # takeWhile base64_class cs) # base64Regex (dropWhile base64_class cs)
            else base64Regex (dropWhile base64_class cs))
      else base64Regex cs)"
  by pat_completeness auto
termination
  by (relation "measure length") (auto simp: le_imp_less_Suc length_dropWhile_le)

definition base64Matches :: "jsstring \<Rightarrow> jsstring list" where
  "base64Matches raw = map strip_spaces (base64Regex (cleaned raw))"

text \<open>\<^verbatim>\<open>/^[A-Za-z0-9+/=]+$/.test(line)\<close>.\<close>

definition base64_line :: "jsstring \<Rightarrow> bool" where
  "base64_line line \<longleftrightarrow> line \<noteq> [] \<and> list_all is_base64 line"

text \<open>
  Strategy 3: the \<open>for\<close> loop over the trimmed lines, with the variables \<open>buffer\<close> and
  \<open>potential\<close> as its state.
\<close>

fun salvage :: "jsstring list \<Rightarrow> jsstring \<Rightarrow> jsstring list \<Rightarrow> jsstring list" where
  "salvage [] buffer potential = potential"
| "salvage (line # lines) buffer potential =
     (if test_whole_i header line then salvage lines [] potential
      else if test_whole_i footer line
      then salvage lines []
             (if 0 < length buffer then potential @ [strip_spaces buffer] else potential)
      else if base64_line line then salvage lines (buffer @ line) potential
      else salvage lines buffer potential)"

definition potential :: "jsstring \<Rightarrow> jsstring list" where
  "potential raw = salvage (map trim (split_lines raw)) [] []"

subsection \<open>Priority of the strategies\<close>

text \<open>
  The extractor is the sequence of the three assignments to \<open>matches\<close>. Beside the final
  value of \<open>matches\<close> it records which strategies were run, in order; the record is not
  in the source and changes nothing the source computes.
\<close>

datatype strategy = PemScan | Base64Scan | LineSalvage

definition extractor :: "jsstring \<Rightarrow> strategy list \<times> jsstring list" where
  "extractor raw =
     (let (applied, matches) = ([PemScan], pemMatches raw);
          (applied, matches) =
             (if length matches = 0 then (applied @ [Base64Scan], base64Matches raw)
              else (applied, matches));
          (applied, matches) =
             (if length matches = 0 then (applied @ [LineSalvage], potential raw)
              else (applied, matches))
      in (applied, matches))"

definition matches :: "jsstring \<Rightarrow> jsstring list" where
  "matches raw = snd (extractor raw)"

section \<open>Per-certificate files and metadata\<close>

text \<open>
  The files of the output directory, named by what \<open>path.join(outDir, ...)\<close> is given:
  \<open>CertPem n\<close> is \<open>cert-n.pem\<close>, then \<open>certificate.pem\<close>, \<open>certificate_chain.pem\<close> and
  \<open>upload-ready.json\<close>.
\<close>

datatype out_path = CertPem nat | CertificatePem | CertificateChainPem | UploadReadyJson

text \<open>The elements of \<open>pemFiles\<close>, and the elements of \<open>meta\<close>, which extend them.\<close>

record pem_file =
  path :: out_path
  pem :: jsstring
  rawB64 :: jsstring

record cert_info = pem_file +
  subject :: "jsstring option"
  issuer :: "jsstring option"
  notBefore :: "jsstring option"
  notAfter :: "jsstring option"

text \<open>\<open>matches.forEach((b64, i) => ...)\<close>, as far as it fills \<open>pemFiles\<close>.\<close>

definition pemFiles :: "jsstring list \<Rightarrow> pem_file list" where
  "pemFiles ms =
     map (\<lambda>(b64, i). \<lparr>path = CertPem (i + 1), pem = encode b64, rawB64 = cleanedB64 b64\<rparr>)
       (zip ms [0..<length ms])"

text \<open>
  The external reader is a parameter: \<open>tool p text\<close> is the standard output of
  \<open>openssl x509 -noout -subject -issuer -dates -in p\<close> on the file \<open>p\<close> with content
  \<open>text\<close>, and \<open>None\<close> when \<open>spawnSync\<close> reports an error or throws.
\<close>

type_synonym reader = "out_path \<Rightarrow> jsstring \<Rightarrow> jsstring option"

definition opensslInspect :: "reader \<Rightarrow> pem_file \<Rightarrow> jsstring option" where
  "opensslInspect tool p = map_option trim (tool (path p) (pem p))"

text \<open>
  \<^verbatim>\<open>info.match(/key(.*)/)\<close> followed by \<^verbatim>\<open>m ? m[1].trim() : null\<close>: the group runs
  from the leftmost occurrence of the key to the next line terminator.
\<close>

definition match_field :: "jsstring \<Rightarrow> jsstring \<Rightarrow> jsstring option" where
  "match_field key info =
     (case find_sub key info of
        None \<Rightarrow> None
      | Some (before, after) \<Rightarrow>
          Some (trim (takeWhile (\<lambda>c. \<not> is_line_terminator c) after)))"

text \<open>A value is truthy when it is neither \<open>null\<close> nor the empty string.\<close>

definition truthy :: "jsstring option \<Rightarrow> bool" where
  "truthy v = (case v of None \<Rightarrow> False | Some s \<Rightarrow> s \<noteq> [])"

definition meta :: "reader \<Rightarrow> pem_file list \<Rightarrow> cert_info list" where
  "meta tool ps =
     map (\<lambda>p.
            let info = opensslInspect tool p;
                text = (case info of None \<Rightarrow> [] | Some i \<Rightarrow> i)
            in if truthy info
               then \<lparr>path = path p, pem = pem p, rawB64 = rawB64 p,
                     subject = match_field (lit ''subject='') text,
                     issuer = match_field (lit ''issuer='') text,
                     notBefore = match_field (lit ''notBefore='') text,
                     notAfter = match_field (lit ''notAfter='') text\<rparr>
               else \<lparr>path = path p, pem = pem p, rawB64 = rawB64 p,
                     subject = None, issuer = None, notBefore = None, notAfter = None\<rparr>)
       ps"

section \<open>Classifier\<close>

text \<open>
  \<open>subjects\<close> keeps the truthy subjects; \<open>subjectStrings\<close> are their strings.
  \<open>candidate\<close> is \<open>meta.find(m => m.issuer && !subjectStrings.includes(m.issuer))\<close>.
\<close>

definition subjectStrings :: "cert_info list \<Rightarrow> jsstring list" where
  "subjectStrings mt =
     concat (map (\<lambda>m. case subject m of
                          None \<Rightarrow> []
                        | Some s \<Rightarrow> if s \<noteq> [] then [s] else []) mt)"

definition is_candidate :: "cert_info list \<Rightarrow> cert_info \<Rightarrow> bool" where
  "is_candidate mt m =
     (case issuer m of
        None \<Rightarrow> False
      | Some s \<Rightarrow> s \<noteq> [] \<and> s \<notin> set (subjectStrings mt))"

definition candidate :: "cert_info list \<Rightarrow> cert_info option" where
  "candidate mt = List.find (is_candidate mt) mt"

text \<open>\<open>xs.indexOf(x)\<close>: the first position that holds \<open>x\<close>, and \<open>-1\<close> when there is none.\<close>

fun indexOf :: "'a list \<Rightarrow> 'a \<Rightarrow> int" where
  "indexOf [] x = - 1"
| "indexOf (y # ys) x =
     (if y = x then 0 else (let i = indexOf ys x in if i < 0 then - 1 else i + 1))"

definition leafIndex :: "cert_info list \<Rightarrow> int" where
  "leafIndex mt = (case candidate mt of Some c \<Rightarrow> indexOf mt c | None \<Rightarrow> 0)"

text \<open>\<open>meta[leafIndex]\<close>, which is \<open>undefined\<close> (here \<open>None\<close>) outside the array.\<close>

definition leaf :: "cert_info list \<Rightarrow> cert_info option" where
  "leaf mt =
     (let i = leafIndex mt
      in if 0 \<le> i \<and> nat i < length mt then Some (mt ! nat i) else None)"

text \<open>\<open>meta.filter((_, idx) => idx !== leafIndex)\<close>.\<close>

definition chainCerts :: "cert_info list \<Rightarrow> cert_info list" where
  "chainCerts mt =
     map fst (filter (\<lambda>(m, idx). int idx \<noteq> leafIndex mt) (zip mt [0..<length mt]))"

section \<open>Bundle writer and the run of the script\<close>

text \<open>The text written to \<open>certificate_chain.pem\<close>, by either branch.\<close>

definition combined :: "cert_info list \<Rightarrow> jsstring" where
  "combined chain = (if 0 < length chain then join [LF] (map pem chain) else [])"

text \<open>
  What the script does to the file system is a list of effects, in order. A file holds
  either a text or the object \<open>uploadJson\<close> with its two string fields; the rendering of
  that object by \<open>JSON.stringify\<close> is not modelled. Writes are taken to succeed, so
  reading \<open>certificate.pem\<close> and \<open>certificate_chain.pem\<close> back gives the texts just
  written. Console output is left out.
\<close>

datatype file_content = Text jsstring | UploadJson jsstring jsstring

datatype effect = Mkdir | WriteFile out_path file_content

text \<open>
  The environment of a run: the arguments of the process, the file system as far as the
  script reads it, and the external reader.
\<close>

record env =
  argv :: "jsstring list"
  readFileSync :: "jsstring \<Rightarrow> jsstring option"
  existsSync_outDir :: bool
  openssl :: reader

text \<open>
  A run ends with \<open>process.exit(code)\<close>, at the end of the script (exit code 0), or
  with an uncaught exception.
\<close>

datatype outcome = Exit nat | Uncaught

definition script :: "env \<Rightarrow> outcome \<times> effect list" where
  "script e =
     (if length (argv e) < 3 then (Exit 2, [])
      else
        (case readFileSync e (argv e ! 2) of
           None \<Rightarrow> (Uncaught, [])
         | Some raw \<Rightarrow>
             (let ms = matches raw
              in if length ms = 0 then (Exit 3, [])
                 else
                   (let mk = (if existsSync_outDir e then [] else [Mkdir]);
                        ps = pemFiles ms;
                        certs = map (\<lambda>p. WriteFile (path p) (Text (pem p))) ps;
                        mt = meta (openssl e) ps
                    in (case leaf mt of
                          None \<Rightarrow> (Uncaught, mk @ certs)
                        | Some l \<Rightarrow>
                            (let chain = combined (chainCerts mt)
                             in (Exit 0,
                                 mk @ certs @
                                 [WriteFile CertificatePem (Text (pem l)),
                                  WriteFile CertificateChainPem (Text chain),
                                  WriteFile UploadReadyJson (UploadJson (pem l) chain)])))))))"

section \<open>The leaf selection in the words of the specification\<close>

text \<open>
  The specification selects the first certificate whose issuer is present, whatever its
  content, and equal to no subject that is present; index 0 when there is none. The two
  definitions follow these words, for comparison with \<open>leafIndex\<close>.
\<close>

definition spec_candidate :: "cert_info list \<Rightarrow> cert_info \<Rightarrow> bool" where
  "spec_candidate mt m =
     (case issuer m of
        None \<Rightarrow> False
      | Some s \<Rightarrow> list_all (\<lambda>m'. subject m' \<noteq> Some s) mt)"

definition spec_leafIndex :: "cert_info list \<Rightarrow> int" where
  "spec_leafIndex mt =
     (if list_ex (spec_candidate mt) mt
      then int (length (takeWhile (\<lambda>m. \<not> spec_candidate mt m) mt))
      else 0)"

section \<open>Concrete inputs\<close>

text \<open>
  A run without the external reader, on a file \<open>input.txt\<close> with the given content and
  with no output directory yet; and a run without the input argument.
\<close>

definition no_reader :: reader where
  "no_reader p content = None"

definition run_on :: "jsstring \<Rightarrow> env" where
  "run_on raw =
     \<lparr>argv = [lit ''node'', lit ''convert-certs.js'', lit ''input.txt''],
      readFileSync = (\<lambda>p. if p = lit ''input.txt'' then Some raw else None),
      existsSync_outDir = False,
      openssl = no_reader\<rparr>"

definition no_arguments :: env where
  "no_arguments =
     \<lparr>argv = [lit ''node'', lit ''convert-certs.js''],
      readFileSync = (\<lambda>p. None),
      existsSync_outDir = False,
      openssl = no_reader\<rparr>"

text \<open>
  Input texts: a block with nothing between header and footer, three small blocks, a
  block whose payload holds code units outside the alphabet, a block between two long
  base64 runs, a block whose body is folded and padded with white space, and base64 lines
  closed by a footer that no header opened.
\<close>

definition header_only_block :: jsstring where
  "header_only_block = header @ [LF] @ footer @ [LF]"

definition three_blocks :: jsstring where
  "three_blocks =
     lit ''-----BEGIN CERTIFICATE-----QQ==-----END CERTIFICATE-----'' @ [LF] @
     lit ''-----BEGIN CERTIFICATE-----Qg==-----END CERTIFICATE-----'' @ [LF] @
     lit ''-----BEGIN CERTIFICATE-----Qw==-----END CERTIFICATE-----'' @ [LF]"

definition garbage_block :: jsstring where
  "garbage_block = lit ''-----BEGIN CERTIFICATE-----Q!U JD*-----END CERTIFICATE-----''"

definition noisy_input :: jsstring where
  "noisy_input = replicate 200 65 @ [LF] @
     lit ''-----BEGIN CERTIFICATE-----QUJD-----END CERTIFICATE-----'' @ [LF] @ replicate 200 66"

definition folded_block :: jsstring where
  "folded_block =
     lit ''-----BEGIN CERTIFICATE-----  A B'' @ [CR, LF] @ lit ''C!  '' @ [LF] @
     lit ''-----END CERTIFICATE-----''"

definition headless_input :: jsstring where
  "headless_input = lit ''QUJD'' @ [LF] @ lit ''-----END CERTIFICATE-----''"

text \<open>
  Metadata: a bundle whose second certificate has an issuer that is present and empty,
  and a bundle whose second certificate is the only one with an unknown issuer.
\<close>

definition empty_issuer_bundle :: "cert_info list" where
  "empty_issuer_bundle =
     [\<lparr>path = CertPem 1, pem = encode (lit ''QQ==''), rawB64 = lit ''QQ=='',
       subject = Some (lit ''CN = A''), issuer = Some (lit ''CN = A''),
       notBefore = None, notAfter = None\<rparr>,
      \<lparr>path = CertPem 2, pem = encode (lit ''Qg==''), rawB64 = lit ''Qg=='',
       subject = Some (lit ''CN = B''), issuer = Some [],
       notBefore = None, notAfter = None\<rparr>]"

definition leaf_last_bundle :: "cert_info list" where
  "leaf_last_bundle =
     [\<lparr>path = CertPem 1, pem = encode (lit ''QQ==''), rawB64 = lit ''QQ=='',
       subject = Some (lit ''CN = Root''), issuer = Some (lit ''CN = Root''),
       notBefore = None, notAfter = None\<rparr>,
      \<lparr>path = CertPem 2, pem = encode (lit ''Qg==''), rawB64 = lit ''Qg=='',
       subject = Some (lit ''CN = Site''), issuer = Some (lit ''CN = Elsewhere''),
       notBefore = None, notAfter = None\<rparr>]"

section \<open>Properties of the encoder\<close>

lemma base64_not_space: "is_base64 c \<Longrightarrow> \<not> is_space c"
  by (auto simp: is_base64_def is_space_def)

lemma base64_not_line_terminator: "is_base64 c \<Longrightarrow> \<not> is_line_terminator c"
  by (auto simp: is_base64_def is_line_terminator_def)

lemma takeWhile_all: "\<forall>x\<in>set xs. P x \<Longrightarrow> takeWhile P xs = xs"
  by (induction xs) auto

lemma replace_chunks_lines:
  "\<forall>c\<in>set r. \<not> is_line_terminator c \<Longrightarrow>
   \<exists>ls. replace_chunks r = concat (map (\<lambda>l. l @ [LF]) ls) \<and> concat ls = r \<and>
        (\<forall>l\<in>set ls. l \<noteq> [] \<and> length l \<le> 64) \<and>
        (\<forall>l\<in>set (butlast ls). length l = 64)"
proof (induction r rule: replace_chunks.induct)
  case 1
  have "replace_chunks [] = concat (map (\<lambda>l. l @ [LF]) []) \<and> concat [] = ([]::jsstring)"
    by simp
  then show ?case by (intro exI[of _ "[]"]) simp
next
  case (2 c cs)
  let ?m = "c # take 63 cs"
  let ?rest = "drop 63 cs"
  from "2.prems" have nlt: "\<not> is_line_terminator c" and all: "\<forall>x\<in>set cs. \<not> is_line_terminator x"
    by auto
  have tw: "takeWhile (\<lambda>x. \<not> is_line_terminator x) cs = cs"
    using all by (simp add: takeWhile_all)
  have dr: "drop (min (length cs) 63) cs = ?rest"
    by (simp add: min_def)
  have "\<forall>x\<in>set ?rest. \<not> is_line_terminator x"
    using all by (meson in_set_dropD)
  with "2.IH"(2)[OF nlt] obtain ls where
    ls: "replace_chunks ?rest = concat (map (\<lambda>l. l @ [LF]) ls)" "concat ls = ?rest"
        "\<forall>l\<in>set ls. l \<noteq> [] \<and> length l \<le> 64" "\<forall>l\<in>set (butlast ls). length l = 64"
    by (auto simp: tw dr)
  have eq: "replace_chunks (c # cs) = ?m @ [LF] @ replace_chunks ?rest"
    using nlt by (simp add: tw dr)
  have a: "replace_chunks (c # cs) = concat (map (\<lambda>l. l @ [LF]) (?m # ls))"
    using eq ls(1) by simp
  have b: "concat (?m # ls) = c # cs"
    using ls(2) by simp
  have c: "\<forall>l\<in>set (?m # ls). l \<noteq> [] \<and> length l \<le> 64"
    using ls(3) by auto
  have d: "\<forall>l\<in>set (butlast (?m # ls)). length l = 64"
  proof (cases "ls = []")
    case True
    then show ?thesis by simp
  next
    case False
    then obtain l where "l \<in> set ls" by (cases ls) auto
    with ls(3) have "l \<noteq> []" by blast
    with \<open>l \<in> set ls\<close> have "concat ls \<noteq> []" by auto
    with ls(2) have "63 < length cs" by simp
    then have "length ?m = 64" by simp
    with ls(4) False show ?thesis by simp
  qed
  from a b c d show ?case by blast
qed

lemma trim_snoc_LF:
  assumes "z \<noteq> []" "\<not> is_space (hd z)" "\<not> is_space (last z)"
  shows "trim (z @ [LF]) = z"
proof -
  have 1: "dropWhile is_space (z @ [LF]) = z @ [LF]"
    using assms(1,2) by (cases z) auto
  have 2: "dropWhile is_space (rev z) = rev z"
    using assms(1,3) by (cases "rev z") (auto simp: last_rev[symmetric] simp del: last_rev)
  have "is_space LF" by (simp add: is_space_def LF_def)
  then show ?thesis
    by (simp add: trim_def 1 2)
qed

lemma hd_replace_chunks:
  "\<not> is_line_terminator c \<Longrightarrow> \<exists>t. replace_chunks (c # cs) = c # t"
  by simp

lemma wrap64_snoc_LF:
  assumes ne: "r \<noteq> []" and b64: "\<forall>c\<in>set r. is_base64 c"
  shows "wrap64 r @ [LF] = replace_chunks r"
proof -
  from b64 have nlt: "\<forall>c\<in>set r. \<not> is_line_terminator c"
    by (simp add: base64_not_line_terminator)
  from replace_chunks_lines[OF nlt] obtain ls where
    ls: "replace_chunks r = concat (map (\<lambda>l. l @ [LF]) ls)" "concat ls = r"
        "\<forall>l\<in>set ls. l \<noteq> [] \<and> length l \<le> 64"
    by blast
  from ne ls(2) have lne: "ls \<noteq> []" by auto
  define z where "z = concat (map (\<lambda>l. l @ [LF]) (butlast ls)) @ last ls"
  have "ls = butlast ls @ [last ls]" using lne by simp
  then have "concat (map (\<lambda>l. l @ [LF]) ls) =
             concat (map (\<lambda>l. l @ [LF]) (butlast ls @ [last ls]))" by simp
  then have rz: "replace_chunks r = z @ [LF]"
    by (simp add: ls(1) z_def)
  have lastne: "last ls \<noteq> []" using lne ls(3) by simp
  then have zne: "z \<noteq> []" by (simp add: z_def)
  have "last z = last (last ls)" using lastne by (simp add: z_def)
  moreover have "last (last ls) \<in> set (concat ls)"
    using lne lastne by (metis UN_I last_in_set set_concat)
  ultimately have "is_base64 (last z)" using b64 ls(2) by simp
  then have l: "\<not> is_space (last z)" by (rule base64_not_space)
  obtain c cs where r: "r = c # cs" using ne by (cases r) auto
  with nlt obtain t where "replace_chunks r = c # t"
    using hd_replace_chunks[of c cs] by auto
  with rz zne have "hd z = c" by (cases z) auto
  with r b64 have h: "\<not> is_space (hd z)" by (simp add: base64_not_space)
  show ?thesis
    unfolding wrap64_def rz by (simp add: trim_snoc_LF[OF zne h l])
qed

lemma filter_LF_lines:
  "filter (\<lambda>c. c \<noteq> LF) (concat (map (\<lambda>l. l @ [LF]) ls)) = filter (\<lambda>c. c \<noteq> LF) (concat ls)"
  by (induction ls) auto

lemma filter_LF_replace_chunks:
  assumes "\<forall>c\<in>set r. is_base64 c"
  shows "filter (\<lambda>c. c \<noteq> LF) (replace_chunks r) = r"
proof -
  from assms have nlt: "\<forall>c\<in>set r. \<not> is_line_terminator c"
    by (simp add: base64_not_line_terminator)
  from replace_chunks_lines[OF nlt] obtain ls where
    ls: "replace_chunks r = concat (map (\<lambda>l. l @ [LF]) ls)" "concat ls = r"
    by blast
  have "\<forall>c\<in>set r. c \<noteq> LF"
    using nlt by (auto simp: is_line_terminator_def LF_def)
  then have "filter (\<lambda>c. c \<noteq> LF) r = r" by simp
  then show ?thesis by (simp add: ls filter_LF_lines)
qed

lemma filter_LF_wrap64:
  assumes "\<forall>c\<in>set r. is_base64 c"
  shows "filter (\<lambda>c. c \<noteq> LF) (wrap64 r) = r"
proof (cases "r = []")
  case True
  then show ?thesis by (simp add: wrap64_def trim_def)
next
  case False
  have "filter (\<lambda>c. c \<noteq> LF) (wrap64 r) = filter (\<lambda>c. c \<noteq> LF) (wrap64 r @ [LF])"
    by simp
  also have "\<dots> = r"
    by (simp only: wrap64_snoc_LF[OF False assms] filter_LF_replace_chunks[OF assms])
  finally show ?thesis .
qed

lemma pem_body_envelope:
  "pem_body (header @ LF # w @ LF # footer @ [LF]) = Some w"
  by (simp add: pem_body_def Let_def)

lemma cleanedB64_id: "\<forall>c\<in>set r. is_base64 c \<Longrightarrow> cleanedB64 r = r"
  by (simp add: cleanedB64_def)

text \<open>
  Claim C2. For every string \<open>r\<close> over the base64 alphabet, the body of \<open>encode r\<close>, that is
  the text between the header line and the footer line, gives back exactly \<open>r\<close> once its
  line breaks are removed. The law holds for the empty string as well, so the theorem
  does not ask for \<open>r\<close> to be non-empty.
\<close>

theorem encode_round_trip:
  assumes "\<forall>c\<in>set r. is_base64 c"
  shows "decode_body (encode r) = Some r"
  by (simp add: decode_body_def encode_def pem_body_envelope cleanedB64_id[OF assms]
      filter_LF_wrap64[OF assms])

theorem encode_round_trip_witness:
  "decode_body (encode (lit ''QUJD'')) = Some (lit ''QUJD'')"
  using encode_round_trip[of "lit ''QUJD''"]
  by (simp add: lit_def is_base64_def)

text \<open>
  Claim C8. For every non-empty string \<open>r\<close> over the base64 alphabet, \<open>encode r\<close> is the
  header line, then the lines \<open>ls\<close>, each closed by one line feed, then the footer line
  closed by one line feed. The lines \<open>ls\<close> concatenate to \<open>r\<close> (nothing is added, so no
  line is padded), every line but the last has exactly 64 code units and the last has
  between 1 and 64. The footer does not end in a line feed, so the text ends in exactly
  one.
\<close>

theorem encode_canonical_lines:
  assumes "r \<noteq> []" and "\<forall>c\<in>set r. is_base64 c"
  shows "\<exists>ls. encode r = header @ [LF] @ concat (map (\<lambda>l. l @ [LF]) ls) @ footer @ [LF] \<and>
              concat ls = r \<and> ls \<noteq> [] \<and>
              (\<forall>l\<in>set (butlast ls). length l = 64) \<and>
              1 \<le> length (last ls) \<and> length (last ls) \<le> 64 \<and>
              last footer \<noteq> LF"
proof -
  from assms(2) have nlt: "\<forall>c\<in>set r. \<not> is_line_terminator c"
    by (simp add: base64_not_line_terminator)
  from replace_chunks_lines[OF nlt] obtain ls where
    ls: "replace_chunks r = concat (map (\<lambda>l. l @ [LF]) ls)" "concat ls = r"
        "\<forall>l\<in>set ls. l \<noteq> [] \<and> length l \<le> 64" "\<forall>l\<in>set (butlast ls). length l = 64"
    by blast
  from assms(1) ls(2) have lne: "ls \<noteq> []" by auto
  then have "last ls \<in> set ls" by simp
  with ls(3) have len: "1 \<le> length (last ls) \<and> length (last ls) \<le> 64"
    by (metis One_nat_def Suc_leI length_greater_0_conv)
  have "encode r = header @ [LF] @ (wrap64 r @ [LF]) @ footer @ [LF]"
    by (simp add: encode_def cleanedB64_id[OF assms(2)])
  then have e: "encode r = header @ [LF] @ concat (map (\<lambda>l. l @ [LF]) ls) @ footer @ [LF]"
    by (simp only: wrap64_snoc_LF[OF assms] ls(1))
  have f: "last footer \<noteq> LF"
    by (simp add: footer_def lit_def LF_def)
  from e ls(2) lne ls(4) len f show ?thesis by blast
qed

theorem encode_canonical_lines_witness:
  "\<exists>ls. encode (replicate 65 65) =
          header @ [LF] @ concat (map (\<lambda>l. l @ [LF]) ls) @ footer @ [LF] \<and>
        concat ls = replicate 65 65 \<and> ls \<noteq> [] \<and>
        (\<forall>l\<in>set (butlast ls). length l = 64) \<and>
        1 \<le> length (last ls) \<and> length (last ls) \<le> 64 \<and>
        last footer \<noteq> LF"
  using encode_canonical_lines[of "replicate 65 65"]
  by (simp add: is_base64_def)

lemma set_dropWhile_subset: "set (dropWhile P xs) \<subseteq> set xs"
  by (auto dest: set_dropWhileD)

lemma set_trim: "set (trim s) \<subseteq> set s"
proof -
  have "set (trim s) = set (dropWhile is_space (rev (dropWhile is_space s)))"
    by (simp add: trim_def)
  also have "\<dots> \<subseteq> set (rev (dropWhile is_space s))"
    by (rule set_dropWhile_subset)
  also have "\<dots> = set (dropWhile is_space s)"
    by simp
  also have "\<dots> \<subseteq> set s"
    by (rule set_dropWhile_subset)
  finally show ?thesis .
qed

lemma trim_ends:
  assumes "trim s \<noteq> []"
  shows "\<not> is_space (hd (trim s)) \<and> \<not> is_space (last (trim s))"
proof -
  define ys where "ys = dropWhile is_space s"
  define zs where "zs = dropWhile is_space (rev ys)"
  have t: "trim s = rev zs" by (simp add: trim_def ys_def zs_def)
  with assms have zne: "zs \<noteq> []" by simp
  then have l: "\<not> is_space (hd zs)"
    unfolding zs_def by (rule hd_dropWhile)
  have "rev ys = takeWhile is_space (rev ys) @ zs"
    by (simp add: zs_def)
  then have "rev (rev ys) = rev (takeWhile is_space (rev ys) @ zs)"
    by (rule arg_cong)
  then have "ys = rev zs @ rev (takeWhile is_space (rev ys))"
    by (simp only: rev_rev_ident rev_append)
  then obtain tw where ys: "ys = rev zs @ tw" ..
  have rne: "rev zs \<noteq> []" using zne by simp
  then have hd_eq: "hd ys = hd (rev zs)"
    unfolding ys by (rule hd_append2)
  have yne: "ys \<noteq> []"
    unfolding ys using rne by simp
  then have "\<not> is_space (hd ys)"
    unfolding ys_def by (rule hd_dropWhile)
  with hd_eq have h: "\<not> is_space (hd (rev zs))" by simp
  from l zne have "\<not> is_space (last (rev zs))" by (simp add: last_rev)
  with h t show ?thesis by simp
qed

lemma set_replace_chunks: "set (replace_chunks s) \<subseteq> insert LF (set s)"
proof (induction s rule: replace_chunks.induct)
  case 1
  show ?case by simp
next
  case (2 c cs)
  let ?t = "take 63 (takeWhile (\<lambda>x. \<not> is_line_terminator x) cs)"
  show ?case
  proof (cases "is_line_terminator c")
    case True
    then have "replace_chunks (c # cs) = c # replace_chunks cs" by simp
    then have "set (replace_chunks (c # cs)) = insert c (set (replace_chunks cs))"
      by (simp only: list.set)
    with "2.IH"(1)[OF True] show ?thesis by auto
  next
    case False
    have "set ?t \<subseteq> set (takeWhile (\<lambda>x. \<not> is_line_terminator x) cs)"
      by (rule set_take_subset)
    also have "\<dots> \<subseteq> set cs"
      by (auto dest: set_takeWhileD)
    finally have a: "set ?t \<subseteq> set cs" .
    have b: "set (drop (length ?t) cs) \<subseteq> set cs"
      by (rule set_drop_subset)
    from "2.IH"(2)[OF False] b
    have r: "set (replace_chunks (drop (length ?t) cs)) \<subseteq> insert LF (set cs)"
      by blast
    have "replace_chunks (c # cs) = c # ?t @ [LF] @ replace_chunks (drop (length ?t) cs)"
      using False by simp
    then have "set (replace_chunks (c # cs)) =
        insert c (set ?t \<union> ({LF} \<union> set (replace_chunks (drop (length ?t) cs))))"
      by (simp only: list.set set_append)
    then have "set (replace_chunks (c # cs)) \<subseteq>
        insert c (set ?t \<union> ({LF} \<union> set (replace_chunks (drop (length ?t) cs))))"
      by (rule equalityD1)
    also have "\<dots> \<subseteq> insert LF (insert c (set cs))"
      using a r by blast
    also have "\<dots> = insert LF (set (c # cs))"
      by (simp only: list.set)
    finally show ?thesis .
  qed
qed

lemma encode_body_base64:
  "\<exists>body. pem_body (encode b64) = Some body \<and> (\<forall>c\<in>set body. is_base64 c \<or> c = LF)"
proof -
  have "set (wrap64 (cleanedB64 b64)) \<subseteq> insert LF (set (cleanedB64 b64))"
    unfolding wrap64_def using set_trim set_replace_chunks by blast
  then have "\<forall>c\<in>set (wrap64 (cleanedB64 b64)). is_base64 c \<or> c = LF"
    by (auto simp: cleanedB64_def)
  moreover have "pem_body (encode b64) = Some (wrap64 (cleanedB64 b64))"
    by (simp add: encode_def pem_body_envelope)
  ultimately show ?thesis by blast
qed

section \<open>Properties of the extractor\<close>

lemma find_sub_skip:
  "pat \<noteq> [] \<Longrightarrow> \<forall>c\<in>set noise. c \<noteq> hd pat \<Longrightarrow>
   find_sub pat (noise @ rest) =
     (case find_sub pat rest of None \<Rightarrow> None | Some (b, a) \<Rightarrow> Some (noise @ b, a))"
proof (induction noise)
  case Nil
  then show ?case by (simp split: option.splits)
next
  case (Cons c cs)
  from Cons.prems have "take (length pat) ((c # cs) @ rest) \<noteq> pat"
    by (cases pat) auto
  with Cons show ?case by (simp split: option.splits)
qed

lemma find_sub_absent:
  "pat \<noteq> [] \<Longrightarrow> \<forall>c\<in>set s. c \<noteq> hd pat \<Longrightarrow> find_sub pat s = None"
  using find_sub_skip[of pat s "[]"] by simp

lemma pemMatches_noisy_input: "pemMatches noisy_input = [lit ''QUJD'']"
proof -
  have h: "header \<noteq> []" "hd header = 45"
    by (simp_all add: header_def lit_def)
  have 1: "find_sub header noisy_input =
            Some (replicate 200 65 @ [LF], lit ''QUJD-----END CERTIFICATE-----'' @ [LF] @ replicate 200 66)"
    unfolding noisy_input_def
    by (subst find_sub_skip) (simp_all add: h header_def lit_def LF_def)
  have 2: "find_sub footer (lit ''QUJD-----END CERTIFICATE-----'' @ [LF] @ replicate 200 66) =
            Some (lit ''QUJD'', [LF] @ replicate 200 66)"
    by (simp add: footer_def lit_def)
  have 3: "find_sub header ([LF] @ replicate 200 66) = None"
    by (rule find_sub_absent) (simp_all add: h LF_def)
  have "pemRegex noisy_input = [lit ''QUJD'']"
    by (subst pemRegex.simps, simp only: 1 2 option.case prod.case, subst pemRegex.simps,
        simp only: 3 option.case)
  then show ?thesis
    by (simp add: pemMatches_def lit_def trim_def is_space_def LF_def CR_def)
qed

text \<open>
  Claim C3. The strategies are tried in order and the first that yields at least one
  payload decides the output: when the PEM scan yields something, the output is its
  output and neither of the other strategies is run; the bare base64 scan is run only
  when the PEM scan yields nothing, and the line salvage only when both yield nothing.
\<close>

theorem extractor_priority:
  "(pemMatches raw \<noteq> [] \<longrightarrow> extractor raw = ([PemScan], pemMatches raw)) \<and>
   (pemMatches raw = [] \<and> base64Matches raw \<noteq> [] \<longrightarrow>
      extractor raw = ([PemScan, Base64Scan], base64Matches raw)) \<and>
   (pemMatches raw = [] \<and> base64Matches raw = [] \<longrightarrow>
      extractor raw = ([PemScan, Base64Scan, LineSalvage], potential raw)) \<and>
   (LineSalvage \<in> set (fst (extractor raw)) \<longrightarrow>
      pemMatches raw = [] \<and> base64Matches raw = [])"
  by (simp add: extractor_def)

text \<open>
  On a well-formed block that stands between two base64 runs of 200 code units each, the
  output is the payload of the block alone.
\<close>

theorem extractor_priority_witness:
  "pemMatches noisy_input = [lit ''QUJD''] \<and> extractor noisy_input = ([PemScan], [lit ''QUJD''])"
proof -
  have "pemMatches noisy_input \<noteq> []"
    by (simp add: pemMatches_noisy_input)
  with extractor_priority[of noisy_input]
  have "extractor noisy_input = ([PemScan], pemMatches noisy_input)"
    by blast
  then show ?thesis by (simp add: pemMatches_noisy_input)
qed

lemma strip_newlines_no_LF: "LF \<notin> set (strip_newlines s)"
  by (induction s rule: strip_newlines.induct) auto

lemma strip_newlines_LF_head: "cs \<noteq> [] \<Longrightarrow> hd cs = LF \<Longrightarrow> strip_newlines cs = strip_newlines (tl cs)"
  by (cases cs) simp_all

lemma line_break_at_Suc: "line_break_at (c # cs) (Suc j) = line_break_at cs j"
  by (simp add: line_break_at_def)

lemma line_break_at_0:
  "line_break_at (c # cs) 0 \<longleftrightarrow> c = LF \<or> (c = CR \<and> cs \<noteq> [] \<and> hd cs = LF)"
  by (cases cs) (simp_all add: line_break_at_def)

lemma strip_newlines_nths:
  "strip_newlines b = nths b {k. \<not> line_break_at b k}"
proof (induction b)
  case Nil
  show ?case by simp
next
  case (Cons c cs)
  have n: "nths (c # cs) {k. \<not> line_break_at (c # cs) k} =
           (if line_break_at (c # cs) 0 then [] else [c]) @ nths cs {k. \<not> line_break_at cs k}"
    by (simp add: nths_Cons line_break_at_Suc)
  show ?case
  proof (cases "line_break_at (c # cs) 0")
    case True
    have "strip_newlines (c # cs) = strip_newlines cs"
    proof (cases "c = LF")
      case True
      then show ?thesis by simp
    next
      case False
      with True have "c = CR \<and> cs \<noteq> [] \<and> hd cs = LF"
        by (simp add: line_break_at_0)
      then show ?thesis using False by (simp add: strip_newlines_LF_head)
    qed
    also have "\<dots> = nths cs {k. \<not> line_break_at cs k}" by (rule Cons.IH)
    also have "\<dots> = nths (c # cs) {k. \<not> line_break_at (c # cs) k}"
      unfolding n using True by simp
    finally show ?thesis .
  next
    case False
    then have "c \<noteq> LF \<and> \<not> (c = CR \<and> cs \<noteq> [] \<and> hd cs = LF)"
      by (simp add: line_break_at_0)
    then have "strip_newlines (c # cs) = c # strip_newlines cs" by auto
    also have "\<dots> = c # nths cs {k. \<not> line_break_at cs k}" by (simp only: Cons.IH)
    also have "\<dots> = nths (c # cs) {k. \<not> line_break_at (c # cs) k}"
      unfolding n using False by simp
    finally show ?thesis .
  qed
qed

lemma trim_decompose:
  "\<exists>pre post. s = pre @ trim s @ post \<and> (\<forall>c\<in>set pre. is_space c) \<and> (\<forall>c\<in>set post. is_space c)"
proof -
  define ys where "ys = dropWhile is_space s"
  define zs where "zs = dropWhile is_space (rev ys)"
  define pre where "pre = takeWhile is_space s"
  define post where "post = rev (takeWhile is_space (rev ys))"
  have t: "trim s = rev zs" by (simp add: trim_def ys_def zs_def)
  have "rev ys = takeWhile is_space (rev ys) @ zs" by (simp add: zs_def)
  then have "rev (rev ys) = rev (takeWhile is_space (rev ys) @ zs)" by (rule arg_cong)
  then have y: "ys = rev zs @ post" by (simp only: rev_rev_ident rev_append post_def)
  have "s = pre @ ys" by (simp add: pre_def ys_def)
  then have 1: "s = pre @ trim s @ post" unfolding t using y by simp
  have 2: "\<forall>c\<in>set pre. is_space c"
    unfolding pre_def by (auto dest: set_takeWhileD)
  have 3: "\<forall>c\<in>set post. is_space c"
    unfolding post_def by (auto dest: set_takeWhileD)
  from 1 2 3 show ?thesis by blast
qed

lemma filter_nonspace_strip_newlines:
  "filter (\<lambda>c. \<not> is_space c) (strip_newlines b) = filter (\<lambda>c. \<not> is_space c) b"
proof (induction b)
  case Nil
  show ?case by simp
next
  case (Cons c cs)
  have lf: "is_space LF" and cr: "is_space CR" by (simp_all add: is_space_def LF_def CR_def)
  show ?case
  proof (cases "c = LF")
    case True
    then show ?thesis using Cons.IH lf by simp
  next
    case nl: False
    show ?thesis
    proof (cases "c = CR \<and> cs \<noteq> [] \<and> hd cs = LF")
      case True
      then have "strip_newlines (c # cs) = strip_newlines cs"
        using nl by (simp add: strip_newlines_LF_head)
      then show ?thesis using Cons.IH True cr by simp
    next
      case False
      then have "strip_newlines (c # cs) = c # strip_newlines cs" using nl by auto
      then show ?thesis using Cons.IH by simp
    qed
  qed
qed

lemma filter_nonspace_trim:
  "filter (\<lambda>c. \<not> is_space c) (trim s) = filter (\<lambda>c. \<not> is_space c) s"
proof -
  from trim_decompose[of s] obtain pre post where
    d: "s = pre @ trim s @ post" "\<forall>c\<in>set pre. is_space c" "\<forall>c\<in>set post. is_space c"
    by blast
  have "filter (\<lambda>c. \<not> is_space c) pre = []" using d(2) by (simp add: filter_empty_conv)
  moreover have "filter (\<lambda>c. \<not> is_space c) post = []" using d(3) by (simp add: filter_empty_conv)
  ultimately have "filter (\<lambda>c. \<not> is_space c) (pre @ trim s @ post) =
      filter (\<lambda>c. \<not> is_space c) (trim s)"
    by simp
  with d(1) show ?thesis by simp
qed

lemma filter_base64_nonspace:
  "filter is_base64 (filter (\<lambda>c. \<not> is_space c) s) = filter is_base64 s"
  by (induction s) (auto simp: base64_not_space)

lemma strip_newlines_id: "LF \<notin> set b \<Longrightarrow> strip_newlines b = b"
proof (induction b)
  case Nil
  show ?case by simp
next
  case (Cons c cs)
  then have "LF \<notin> set cs" and "c \<noteq> LF" by auto
  moreover have "\<not> (cs \<noteq> [] \<and> hd cs = LF)"
  proof
    assume a: "cs \<noteq> [] \<and> hd cs = LF"
    then have "cs \<noteq> []" by simp
    then have "hd cs \<in> set cs" by (rule hd_in_set)
    with a \<open>LF \<notin> set cs\<close> show False by simp
  qed
  ultimately show ?case using Cons.IH by auto
qed

lemma dropWhile_keep: "xs \<noteq> [] \<Longrightarrow> \<not> P (hd xs) \<Longrightarrow> dropWhile P xs = xs"
  by (cases xs) auto

lemma trim_id:
  assumes "b \<noteq> []" "\<not> is_space (hd b)" "\<not> is_space (last b)"
  shows "trim b = b"
proof -
  have 1: "dropWhile is_space b = b"
    using assms(1,2) by (rule dropWhile_keep)
  have r: "rev b \<noteq> []" using assms(1) by simp
  have "hd (rev b) = last b" using assms(1) by (simp add: hd_rev)
  with assms(3) have "\<not> is_space (hd (rev b))" by simp
  with r have 2: "dropWhile is_space (rev b) = rev b"
    by (rule dropWhile_keep)
  show ?thesis by (simp add: trim_def 1 2)
qed

lemma rawB64_pemFiles: "p \<in> set (pemFiles ms) \<Longrightarrow> \<forall>c\<in>set (rawB64 p). is_base64 c"
  by (auto simp: pemFiles_def cleanedB64_def)

text \<open>
  Claim C7, amended. For the \<open>i\<close>-th block the PEM scan matches, with body \<open>b\<close>, the
  payload \<open>m\<close> is the body with every line feed removed, together with a carriage
  return directly before it, and then with white space trimmed from both ends: what is
  left of \<open>b\<close> outside its line breaks is \<open>m\<close> between two runs of white space, and \<open>m\<close>
  holds no line feed and neither starts nor ends with white space. Everything else
  inside the body is kept at this stage: the code units of \<open>m\<close> that are not white space
  are those of \<open>b\<close>, in order, whether or not they belong to the base64 alphabet, and a
  body without line feed that neither starts nor ends with white space is the payload
  unchanged, inner spaces, tabs and carriage returns included. The other code units go
  only when the payload is encoded: \<open>cleanedB64\<close> of the payload is the body reduced to
  the base64 alphabet, so the \<open>rawB64\<close> stored for each payload of the scan is a string
  over the alphabet.
\<close>

theorem pem_scan_payload:
  assumes "i < length (pemRegex raw)" and "b = pemRegex raw ! i" and "m = pemMatches raw ! i"
  shows "length (pemMatches raw) = length (pemRegex raw) \<and>
         (\<exists>pre post. nths b {k. \<not> line_break_at b k} = pre @ m @ post \<and>
                     (\<forall>c\<in>set pre. is_space c) \<and> (\<forall>c\<in>set post. is_space c)) \<and>
         LF \<notin> set m \<and>
         (m \<noteq> [] \<longrightarrow> \<not> is_space (hd m) \<and> \<not> is_space (last m)) \<and>
         filter (\<lambda>c. \<not> is_space c) m = filter (\<lambda>c. \<not> is_space c) b \<and>
         (LF \<notin> set b \<and> b \<noteq> [] \<and> \<not> is_space (hd b) \<and> \<not> is_space (last b) \<longrightarrow> m = b) \<and>
         cleanedB64 m = filter is_base64 b \<and>
         (\<forall>p\<in>set (pemFiles (pemMatches raw)). \<forall>c\<in>set (rawB64 p). is_base64 c)"
proof -
  have len: "length (pemMatches raw) = length (pemRegex raw)"
    by (simp add: pemMatches_def)
  have m: "m = trim (strip_newlines b)"
    using assms by (simp add: pemMatches_def)
  have 1: "\<exists>pre post. nths b {k. \<not> line_break_at b k} = pre @ m @ post \<and>
                     (\<forall>c\<in>set pre. is_space c) \<and> (\<forall>c\<in>set post. is_space c)"
    unfolding m strip_newlines_nths[symmetric] by (rule trim_decompose)
  have 2: "LF \<notin> set m"
    using set_trim[of "strip_newlines b"] strip_newlines_no_LF[of b] m by auto
  have 3: "m \<noteq> [] \<longrightarrow> \<not> is_space (hd m) \<and> \<not> is_space (last m)"
    unfolding m using trim_ends[of "strip_newlines b"] by blast
  have 4: "filter (\<lambda>c. \<not> is_space c) m = filter (\<lambda>c. \<not> is_space c) b"
    unfolding m by (simp only: filter_nonspace_trim filter_nonspace_strip_newlines)
  have 5: "LF \<notin> set b \<and> b \<noteq> [] \<and> \<not> is_space (hd b) \<and> \<not> is_space (last b) \<longrightarrow> m = b"
    unfolding m by (simp add: strip_newlines_id trim_id)
  have "cleanedB64 m = filter is_base64 (filter (\<lambda>c. \<not> is_space c) m)"
    by (simp only: cleanedB64_def filter_base64_nonspace)
  also have "\<dots> = filter is_base64 b"
    by (simp only: 4 filter_base64_nonspace)
  finally have 6: "cleanedB64 m = filter is_base64 b" .
  have 7: "\<forall>p\<in>set (pemFiles (pemMatches raw)). \<forall>c\<in>set (rawB64 p). is_base64 c"
    using rawB64_pemFiles by blast
  from len 1 2 3 4 5 6 7 show ?thesis by blast
qed

theorem pem_scan_payload_witness:
  "pemRegex folded_block = [lit ''  A B'' @ [CR, LF] @ lit ''C!  '' @ [LF]] \<and>
   pemMatches folded_block = [lit ''A BC!''] \<and>
   LF \<notin> set (lit ''A BC!'') \<and>
   filter (\<lambda>c. \<not> is_space c) (lit ''A BC!'') =
     filter (\<lambda>c. \<not> is_space c) (lit ''  A B'' @ [CR, LF] @ lit ''C!  '' @ [LF]) \<and>
   cleanedB64 (lit ''A BC!'') = filter is_base64 (lit ''  A B'' @ [CR, LF] @ lit ''C!  '' @ [LF])"
proof -
  let ?b = "lit ''  A B'' @ [CR, LF] @ lit ''C!  '' @ [LF]"
  have r: "pemRegex folded_block = [?b]"
    by (simp add: folded_block_def pemRegex.simps header_def footer_def lit_def LF_def CR_def)
  have m: "pemMatches folded_block = [lit ''A BC!'']"
    by (simp add: folded_block_def pemMatches_def pemRegex.simps header_def footer_def lit_def
        LF_def CR_def trim_def is_space_def)
  have i: "0 < length (pemRegex folded_block)" by (simp add: r)
  have b: "?b = pemRegex folded_block ! 0" by (simp add: r)
  have p: "lit ''A BC!'' = pemMatches folded_block ! 0" by (simp add: m)
  from pem_scan_payload[OF i b p]
  have "LF \<notin> set (lit ''A BC!'') \<and>
        filter (\<lambda>c. \<not> is_space c) (lit ''A BC!'') = filter (\<lambda>c. \<not> is_space c) ?b \<and>
        cleanedB64 (lit ''A BC!'') = filter is_base64 ?b"
    by blast
  with r m show ?thesis by blast
qed

text \<open>
  Claim C7 as stated fails for the value the PEM scan produces: the payload of the folded
  block keeps a space and an exclamation mark.
\<close>

theorem pem_scan_keeps_spaces_counterexample:
  "pemMatches folded_block = [lit ''A BC!''] \<and> \<not> list_all is_base64 (lit ''A BC!'') \<and>
   list_ex is_space (lit ''A BC!'')"
  by (simp add: folded_block_def pemMatches_def pemRegex.simps header_def footer_def lit_def
      LF_def CR_def trim_def is_space_def is_base64_def)

text \<open>
  Claim C6 fails on the code. For a block with nothing between the header line and the
  footer line the PEM scan yields one payload, the empty string. The list of matches has
  length 1, so the run neither tries the other strategies nor stops with exit code 3: it
  writes \<open>cert-1.pem\<close> and \<open>certificate.pem\<close> with an empty body. The line salvage guards
  against this with \<open>buffer.length > 0\<close>; the other two strategies have no such guard.
\<close>

theorem empty_payload_emitted:
  "matches header_only_block = [[]] \<and>
   script (run_on header_only_block) =
     (Exit 0,
      [Mkdir,
       WriteFile (CertPem 1) (Text (header @ [LF, LF] @ footer @ [LF])),
       WriteFile CertificatePem (Text (header @ [LF, LF] @ footer @ [LF])),
       WriteFile CertificateChainPem (Text []),
       WriteFile UploadReadyJson (UploadJson (header @ [LF, LF] @ footer @ [LF]) [])])"
  by (simp add: header_only_block_def script_def run_on_def no_reader_def matches_def
      extractor_def pemMatches_def pemRegex.simps header_def footer_def lit_def LF_def CR_def
      trim_def is_space_def pemFiles_def meta_def opensslInspect_def truthy_def leaf_def
      leafIndex_def candidate_def is_candidate_def chainCerts_def combined_def encode_def
      cleanedB64_def wrap64_def is_base64_def is_line_terminator_def Let_def)

lemma header_not_footer: "\<not> (test_whole_i header line \<and> test_whole_i footer line)"
proof
  assume "test_whole_i header line \<and> test_whole_i footer line"
  then have "map lower header = map lower footer"
    unfolding test_whole_i_def by metis
  then have "length header = length footer"
    by (metis length_map)
  then show False
    by (simp add: header_def footer_def lit_def)
qed

lemma salvage_acc: "salvage ls buffer pot = pot @ salvage ls buffer []"
proof (induction ls arbitrary: buffer pot)
  case Nil
  show ?case by simp
next
  case (Cons line lines)
  have a: "salvage lines b (pot @ [x]) = pot @ salvage lines b [x]" for b x
    using Cons.IH[of b "pot @ [x]"] Cons.IH[of b "[x]"] by simp
  show ?case
    using Cons.IH[of "[]" pot] Cons.IH[of "buffer @ line" pot] Cons.IH[of buffer pot]
    by (simp add: a)
qed

lemma salvage_plain:
  "\<forall>l\<in>set seg. \<not> test_whole_i header l \<and> \<not> test_whole_i footer l \<Longrightarrow>
   salvage (seg @ rest) buffer pot =
     salvage rest (buffer @ concat (filter base64_line seg)) pot"
  by (induction seg arbitrary: buffer) (auto simp: base64_line_def)

lemma strip_spaces_base64: "list_all is_base64 s \<Longrightarrow> strip_spaces s = s"
  by (induction s) (auto simp: strip_spaces_def base64_not_space)

lemma list_all_concat_lines: "list_all is_base64 (concat (filter base64_line seg))"
  by (induction seg) (auto simp: base64_line_def list_all_iff)

lemma salvage_no_end:
  "\<forall>l\<in>set seg. \<not> test_whole_i footer l \<Longrightarrow> salvage seg buffer pot = pot"
  by (induction seg arbitrary: buffer) auto

lemma salvage_marker:
  "test_whole_i header m \<or> test_whole_i footer m \<Longrightarrow>
   salvage (pre @ m # rest) buffer pot = salvage (pre @ [m]) buffer pot @ salvage rest [] []"
proof (induction pre arbitrary: buffer pot)
  case Nil
  then show ?case
    using salvage_acc[of rest "[]" pot] salvage_acc[of rest "[]" "pot @ [strip_spaces buffer]"]
    by auto
next
  case (Cons l pre)
  from Cons.IH[OF Cons.prems] show ?case by simp
qed

lemma salvage_emitted:
  "list_all is_base64 buffer \<Longrightarrow> list_all (\<lambda>x. x \<noteq> [] \<and> list_all is_base64 x) pot \<Longrightarrow>
   list_all (\<lambda>x. x \<noteq> [] \<and> list_all is_base64 x) (salvage ls buffer pot)"
proof (induction ls arbitrary: buffer pot)
  case Nil
  then show ?case by simp
next
  case (Cons l ls)
  show ?case
  proof (cases "test_whole_i header l")
    case True
    then show ?thesis using Cons.IH[of "[]" pot] Cons.prems by simp
  next
    case nb: False
    show ?thesis
    proof (cases "test_whole_i footer l")
      case True
      show ?thesis
      proof (cases "0 < length buffer")
        case b: True
        with Cons.prems have "list_all (\<lambda>x. x \<noteq> [] \<and> list_all is_base64 x) (pot @ [strip_spaces buffer])"
          by (simp add: strip_spaces_base64)
        then show ?thesis
          using Cons.IH[of "[]" "pot @ [strip_spaces buffer]"] nb True b by simp
      next
        case False
        then show ?thesis using Cons.IH[of "[]" pot] Cons.prems nb True by simp
      qed
    next
      case ne: False
      show ?thesis
      proof (cases "base64_line l")
        case True
        with Cons.prems have "list_all is_base64 (buffer @ l)" by (simp add: base64_line_def)
        then show ?thesis
          using Cons.IH[of "buffer @ l" pot] Cons.prems(2) nb ne True by simp
      next
        case False
        then show ?thesis using Cons.IH[of buffer pot] Cons.prems nb ne by auto
      qed
    qed
  qed
qed

text \<open>
  Claim C5, amended. The line salvage has no notion of an open buffer. Its result on the
  trimmed lines is fixed by four facts. A marker line, BEGIN or END, closes what precedes
  it and what follows starts from an empty buffer. Lines without a marker, followed by an
  END marker, emit the concatenation of their base64 lines when it is not empty, whether
  or not a BEGIN marker precedes them. Lines without an END marker emit nothing, so what
  is accumulated at the end of the input is discarded. Every emitted payload is a
  non-empty string over the base64 alphabet.
\<close>

theorem salvage_segments:
  "(test_whole_i header m \<or> test_whole_i footer m \<longrightarrow>
      salvage (pre @ m # rest) [] [] = salvage (pre @ [m]) [] [] @ salvage rest [] []) \<and>
   ((\<forall>l\<in>set seg. \<not> test_whole_i header l \<and> \<not> test_whole_i footer l) \<and>
    test_whole_i footer e \<longrightarrow>
      salvage (seg @ [e]) [] [] =
        (if concat (filter base64_line seg) = [] then []
         else [concat (filter base64_line seg)])) \<and>
   ((\<forall>l\<in>set ls. \<not> test_whole_i footer l) \<longrightarrow> salvage ls [] [] = []) \<and>
   (\<forall>x\<in>set (potential raw). x \<noteq> [] \<and> list_all is_base64 x)"
proof (intro conjI impI)
  assume "test_whole_i header m \<or> test_whole_i footer m"
  then show "salvage (pre @ m # rest) [] [] = salvage (pre @ [m]) [] [] @ salvage rest [] []"
    by (rule salvage_marker)
next
  assume a: "(\<forall>l\<in>set seg. \<not> test_whole_i header l \<and> \<not> test_whole_i footer l) \<and>
    test_whole_i footer e"
  then have ne: "\<not> test_whole_i header e"
    using header_not_footer by blast
  let ?c = "concat (filter base64_line seg)"
  have "salvage (seg @ [e]) [] [] = salvage [e] ?c []"
    using a salvage_plain[of seg "[e]" "[]" "[]"] by simp
  also have "\<dots> = (if ?c = [] then [] else [?c])"
    using a ne by (simp add: strip_spaces_base64 list_all_concat_lines)
  finally show "salvage (seg @ [e]) [] [] = (if ?c = [] then [] else [?c])" .
next
  assume "\<forall>l\<in>set ls. \<not> test_whole_i footer l"
  then show "salvage ls [] [] = []"
    by (rule salvage_no_end)
next
  have "list_all (\<lambda>x. x \<noteq> [] \<and> list_all is_base64 x) (potential raw)"
    unfolding potential_def by (rule salvage_emitted) simp_all
  then show "\<forall>x\<in>set (potential raw). x \<noteq> [] \<and> list_all is_base64 x"
    by (simp add: list_all_iff)
qed

theorem salvage_segments_witness:
  "salvage ([lit ''QUJD'', lit ''not base64!'', lit ''RUZH''] @ [lit ''-----end certificate-----''])
     [] [] = [lit ''QUJDRUZH''] \<and>
   salvage [lit ''-----BEGIN CERTIFICATE-----'', lit ''QUJD''] [] [] = []"
proof -
  let ?seg = "[lit ''QUJD'', lit ''not base64!'', lit ''RUZH'']"
  let ?e = "lit ''-----end certificate-----''"
  let ?ls = "[lit ''-----BEGIN CERTIFICATE-----'', lit ''QUJD'']"
  have h1: "(\<forall>l\<in>set ?seg. \<not> test_whole_i header l \<and> \<not> test_whole_i footer l) \<and>
            test_whole_i footer ?e"
    by (simp add: test_whole_i_def header_def footer_def lit_def lower_def)
  have h2: "\<forall>l\<in>set ?ls. \<not> test_whole_i footer l"
    by (simp add: test_whole_i_def footer_def lit_def lower_def)
  have c: "concat (filter base64_line ?seg) = lit ''QUJDRUZH''"
    by (simp add: base64_line_def is_base64_def lit_def)
  from salvage_segments[of _ _ _ ?seg ?e ?ls] h1 h2
  have "salvage (?seg @ [?e]) [] [] =
          (if concat (filter base64_line ?seg) = [] then []
           else [concat (filter base64_line ?seg)]) \<and>
        salvage ?ls [] [] = []"
    by blast
  then show ?thesis
    unfolding c by (simp add: lit_def)
qed

text \<open>
  Claim C5 as stated fails: base64 lines closed by an END marker are emitted although no
  line equals the BEGIN marker.
\<close>

theorem salvage_without_begin_counterexample:
  "potential headless_input = [lit ''QUJD''] \<and> matches headless_input = [lit ''QUJD''] \<and>
   \<not> list_ex (test_whole_i header) (map trim (split_lines headless_input))"
  by (simp add: headless_input_def matches_def extractor_def pemMatches_def pemRegex.simps
      base64Matches_def cleaned_def base64_class_def test_prefix_i_def potential_def
      header_def footer_def lit_def LF_def CR_def trim_def is_space_def is_base64_def
      test_whole_i_def lower_def strip_spaces_def base64_line_def)

section \<open>Properties of the classifier\<close>

lemma is_candidate_iff:
  "is_candidate mt m \<longleftrightarrow>
     (\<exists>s. issuer m = Some s \<and> s \<noteq> [] \<and> (\<forall>m'\<in>set mt. subject m' \<noteq> Some s))"
proof -
  have "s \<in> set (subjectStrings mt) \<longleftrightarrow> s \<noteq> [] \<and> (\<exists>m'\<in>set mt. subject m' = Some s)" for s
    by (force simp: subjectStrings_def split: option.splits if_splits)
  then show ?thesis
    by (auto simp: is_candidate_def split: option.splits)
qed

lemma find_indexOf:
  "List.find P xs = Some x \<Longrightarrow>
   \<exists>k. indexOf xs x = int k \<and> k < length xs \<and> xs ! k = x \<and> P x \<and> (\<forall>j<k. \<not> P (xs ! j))"
proof (induction xs)
  case Nil
  then show ?case by simp
next
  case (Cons y ys)
  show ?case
  proof (cases "P y")
    case True
    with Cons.prems have "x = y" by simp
    with True have "indexOf (y # ys) x = int 0 \<and> 0 < length (y # ys) \<and> (y # ys) ! 0 = x \<and> P x \<and>
        (\<forall>j<0. \<not> P ((y # ys) ! j))"
      by simp
    then show ?thesis by blast
  next
    case False
    with Cons.prems have f: "List.find P ys = Some x" by simp
    from Cons.IH[OF f] obtain k where
      k: "indexOf ys x = int k" "k < length ys" "ys ! k = x" "P x" "\<forall>j<k. \<not> P (ys ! j)"
      by blast
    from False k(4) have ne: "y \<noteq> x" by auto
    have "indexOf (y # ys) x = int (Suc k)"
      using ne k(1) by (simp add: Let_def)
    moreover have "\<forall>j<Suc k. \<not> P ((y # ys) ! j)"
      using False k(5) by (auto simp: less_Suc_eq_0_disj)
    ultimately have "indexOf (y # ys) x = int (Suc k) \<and> Suc k < length (y # ys) \<and>
        (y # ys) ! Suc k = x \<and> P x \<and> (\<forall>j<Suc k. \<not> P ((y # ys) ! j))"
      using k by simp
    then show ?thesis by blast
  qed
qed

lemma leafIndex_cases:
  "(\<exists>k. leafIndex mt = int k \<and> k < length mt \<and> is_candidate mt (mt ! k) \<and>
        (\<forall>j<k. \<not> is_candidate mt (mt ! j))) \<or>
   (leafIndex mt = 0 \<and> (\<forall>m\<in>set mt. \<not> is_candidate mt m))"
proof (cases "candidate mt")
  case None
  then have "\<forall>m\<in>set mt. \<not> is_candidate mt m"
    by (simp add: candidate_def find_None_iff)
  with None show ?thesis by (simp add: leafIndex_def)
next
  case (Some c)
  then have "List.find (is_candidate mt) mt = Some c" by (simp add: candidate_def)
  from find_indexOf[OF this] Some show ?thesis
    by (auto simp: leafIndex_def)
qed

lemma leafIndex_range: "0 \<le> leafIndex mt \<and> (mt \<noteq> [] \<longrightarrow> nat (leafIndex mt) < length mt)"
  using leafIndex_cases[of mt] by auto

lemma filter_index_all:
  "length ys = b - a \<Longrightarrow> k < a \<or> b \<le> k \<Longrightarrow>
   map fst (filter (\<lambda>(m, idx). idx \<noteq> k) (zip ys [a..<b])) = ys"
proof -
  assume len: "length ys = b - a" and k: "k < a \<or> b \<le> k"
  have "\<forall>p\<in>set (zip ys [a..<b]). (\<lambda>(m, idx). idx \<noteq> k) p"
    using k by (auto dest: set_zip_rightD)
  then have "filter (\<lambda>(m, idx). idx \<noteq> k) (zip ys [a..<b]) = zip ys [a..<b]"
    by (simp only: filter_True)
  then show ?thesis using len by simp
qed

lemma filter_index_remove:
  assumes "k < length xs"
  shows "map fst (filter (\<lambda>(m, idx). idx \<noteq> k) (zip xs [0..<length xs])) =
         take k xs @ drop (Suc k) xs"
proof -
  let ?n = "length xs"
  have xs: "xs = take k xs @ xs ! k # drop (Suc k) xs"
    using assms by (simp add: id_take_nth_drop)
  have up: "[0..<?n] = [0..<k] @ k # [Suc k..<?n]"
    using assms by (metis le_add1 le_add_same_cancel1 less_imp_add_positive order_less_imp_le upt_add_eq_append upt_rec zero_le)
  have "zip xs [0..<?n] = zip (take k xs @ xs ! k # drop (Suc k) xs) ([0..<k] @ k # [Suc k..<?n])"
    using xs up by simp
  also have "\<dots> = zip (take k xs) [0..<k] @ (xs ! k, k) # zip (drop (Suc k) xs) [Suc k..<?n]"
    using assms by (subst zip_append) simp_all
  finally have z: "zip xs [0..<?n] =
      zip (take k xs) [0..<k] @ (xs ! k, k) # zip (drop (Suc k) xs) [Suc k..<?n]" .
  have 1: "map fst (filter (\<lambda>(m, idx). idx \<noteq> k) (zip (take k xs) [0..<k])) = take k xs"
    using assms by (intro filter_index_all) simp_all
  have 2: "map fst (filter (\<lambda>(m, idx). idx \<noteq> k) (zip (drop (Suc k) xs) [Suc k..<?n])) =
           drop (Suc k) xs"
    using assms filter_index_all[of "drop (Suc k) xs" "length xs" "Suc k" k] by simp
  show ?thesis
    unfolding z by (simp add: 1 2)
qed

lemma chainCerts_eq:
  "chainCerts mt = take (nat (leafIndex mt)) mt @ drop (Suc (nat (leafIndex mt))) mt"
proof (cases "mt = []")
  case True
  then show ?thesis by (simp add: chainCerts_def)
next
  case False
  with leafIndex_range[of mt] have r: "0 \<le> leafIndex mt" "nat (leafIndex mt) < length mt"
    by auto
  have "(\<lambda>(m, idx). int idx \<noteq> leafIndex mt) = (\<lambda>(m::cert_info, idx). idx \<noteq> nat (leafIndex mt))"
    using r(1) by (auto simp: fun_eq_iff)
  then show ?thesis
    unfolding chainCerts_def using filter_index_remove[OF r(2)] by simp
qed

text \<open>
  Claim C1, amended. The leaf is the first certificate, in extraction order, whose issuer
  is present and not empty and equals no subject of the sequence; when there is no such
  certificate the leaf is index 0. The index is never negative and lies inside a
  non-empty sequence. The chain is the sequence without the element at the leaf index,
  in the original order. \<open>leafIndex\<close> and \<open>chainCerts\<close> are total functions without an error
  value: no statement of the classification can throw.
\<close>

theorem classify_leaf_and_chain:
  "(\<forall>k. k < length mt \<and>
        (\<exists>s. issuer (mt ! k) = Some s \<and> s \<noteq> [] \<and> (\<forall>m\<in>set mt. subject m \<noteq> Some s)) \<and>
        (\<forall>j<k. \<not> (\<exists>s. issuer (mt ! j) = Some s \<and> s \<noteq> [] \<and>
                        (\<forall>m\<in>set mt. subject m \<noteq> Some s)))
        \<longrightarrow> leafIndex mt = int k) \<and>
   ((\<forall>c\<in>set mt. \<not> (\<exists>s. issuer c = Some s \<and> s \<noteq> [] \<and> (\<forall>m\<in>set mt. subject m \<noteq> Some s)))
        \<longrightarrow> leafIndex mt = 0) \<and>
   0 \<le> leafIndex mt \<and> (mt \<noteq> [] \<longrightarrow> nat (leafIndex mt) < length mt) \<and>
   chainCerts mt = take (nat (leafIndex mt)) mt @ drop (Suc (nat (leafIndex mt))) mt"
proof (intro conjI allI impI)
  fix k
  assume a: "k < length mt \<and>
        (\<exists>s. issuer (mt ! k) = Some s \<and> s \<noteq> [] \<and> (\<forall>m\<in>set mt. subject m \<noteq> Some s)) \<and>
        (\<forall>j<k. \<not> (\<exists>s. issuer (mt ! j) = Some s \<and> s \<noteq> [] \<and>
                        (\<forall>m\<in>set mt. subject m \<noteq> Some s)))"
  then have k: "k < length mt" "is_candidate mt (mt ! k)" "\<forall>j<k. \<not> is_candidate mt (mt ! j)"
    by (simp_all add: is_candidate_iff)
  from leafIndex_cases[of mt] show "leafIndex mt = int k"
  proof
    assume "\<exists>k'. leafIndex mt = int k' \<and> k' < length mt \<and> is_candidate mt (mt ! k') \<and>
        (\<forall>j<k'. \<not> is_candidate mt (mt ! j))"
    then obtain k' where k': "leafIndex mt = int k'" "is_candidate mt (mt ! k')"
        "\<forall>j<k'. \<not> is_candidate mt (mt ! j)"
      by blast
    from k(2,3) k'(2,3) have "k' = k"
      by (meson linorder_neqE_nat)
    with k'(1) show ?thesis by simp
  next
    assume "leafIndex mt = 0 \<and> (\<forall>m\<in>set mt. \<not> is_candidate mt m)"
    with k(1,2) show ?thesis
      using nth_mem by blast
  qed
next
  assume "\<forall>c\<in>set mt. \<not> (\<exists>s. issuer c = Some s \<and> s \<noteq> [] \<and> (\<forall>m\<in>set mt. subject m \<noteq> Some s))"
  then have n: "\<forall>c\<in>set mt. \<not> is_candidate mt c"
    by (simp add: is_candidate_iff)
  from leafIndex_cases[of mt] show "leafIndex mt = 0"
  proof
    assume "\<exists>k. leafIndex mt = int k \<and> k < length mt \<and> is_candidate mt (mt ! k) \<and>
        (\<forall>j<k. \<not> is_candidate mt (mt ! j))"
    with n show ?thesis using nth_mem by blast
  qed simp
next
  show "0 \<le> leafIndex mt" using leafIndex_range[of mt] by simp
next
  assume "mt \<noteq> []"
  then show "nat (leafIndex mt) < length mt" using leafIndex_range[of mt] by simp
next
  show "chainCerts mt = take (nat (leafIndex mt)) mt @ drop (Suc (nat (leafIndex mt))) mt"
    by (rule chainCerts_eq)
qed

theorem classify_leaf_and_chain_witness:
  "leafIndex leaf_last_bundle = 1 \<and> chainCerts leaf_last_bundle = [leaf_last_bundle ! 0]"
proof -
  let ?P = "\<lambda>c. \<exists>s. issuer c = Some s \<and> s \<noteq> [] \<and>
              (\<forall>m\<in>set leaf_last_bundle. subject m \<noteq> Some s)"
  have len: "(1::nat) < length leaf_last_bundle"
    by (simp add: leaf_last_bundle_def)
  have p1: "?P (leaf_last_bundle ! 1)"
    by (simp add: leaf_last_bundle_def lit_def)
  have p0: "\<forall>j<(1::nat). \<not> ?P (leaf_last_bundle ! j)"
    by (simp add: leaf_last_bundle_def lit_def)
  from classify_leaf_and_chain[of leaf_last_bundle] len p1 p0
  have li: "leafIndex leaf_last_bundle = int 1"
    by blast
  from classify_leaf_and_chain[of leaf_last_bundle]
  have "chainCerts leaf_last_bundle =
        take (nat (leafIndex leaf_last_bundle)) leaf_last_bundle @
        drop (Suc (nat (leafIndex leaf_last_bundle))) leaf_last_bundle"
    by blast
  then have "chainCerts leaf_last_bundle = [leaf_last_bundle ! 0]"
    unfolding li by (simp add: leaf_last_bundle_def)
  with li show ?thesis by simp
qed

text \<open>
  Claim C1 as stated fails where an issuer is present and empty: the code takes it for
  absent and falls back to index 0, the words of the specification select index 1.
\<close>

theorem classify_empty_issuer_counterexample:
  "leafIndex empty_issuer_bundle = 0 \<and> spec_leafIndex empty_issuer_bundle = 1"
  by (simp add: empty_issuer_bundle_def lit_def subjectStrings_def is_candidate_def
      candidate_def leafIndex_def spec_candidate_def spec_leafIndex_def)

section \<open>Properties of a run\<close>

lemma matches_empty_iff:
  "matches raw = [] \<longleftrightarrow> pemMatches raw = [] \<and> base64Matches raw = [] \<and> potential raw = []"
  by (auto simp: matches_def extractor_def)

lemma length_meta: "length (meta tool ps) = length ps"
  by (simp add: meta_def)

lemma length_pemFiles: "length (pemFiles ms) = length ms"
  by (simp add: pemFiles_def)

lemma leaf_Some:
  assumes "mt \<noteq> []"
  shows "leaf mt = Some (mt ! nat (leafIndex mt))"
  using leafIndex_range[of mt] assms by (simp add: leaf_def)

lemma script_usage: "length (argv e) < 3 \<Longrightarrow> script e = (Exit 2, [])"
  by (simp add: script_def)

lemma script_empty:
  "3 \<le> length (argv e) \<Longrightarrow> readFileSync e (argv e ! 2) = Some raw \<Longrightarrow> matches raw = [] \<Longrightarrow>
   script e = (Exit 3, [])"
  by (simp add: script_def)

lemma script_success:
  assumes "3 \<le> length (argv e)" "readFileSync e (argv e ! 2) = Some raw" "matches raw \<noteq> []"
  shows "script e =
    (Exit 0,
     (if existsSync_outDir e then [] else [Mkdir]) @
     map (\<lambda>p. WriteFile (path p) (Text (pem p))) (pemFiles (matches raw)) @
     [WriteFile CertificatePem
        (Text (pem (meta (openssl e) (pemFiles (matches raw)) !
                    nat (leafIndex (meta (openssl e) (pemFiles (matches raw))))))),
      WriteFile CertificateChainPem
        (Text (combined (chainCerts (meta (openssl e) (pemFiles (matches raw)))))),
      WriteFile UploadReadyJson
        (UploadJson
           (pem (meta (openssl e) (pemFiles (matches raw)) !
                 nat (leafIndex (meta (openssl e) (pemFiles (matches raw))))))
           (combined (chainCerts (meta (openssl e) (pemFiles (matches raw))))))])"
proof -
  let ?mt = "meta (openssl e) (pemFiles (matches raw))"
  have "?mt \<noteq> []"
    using assms(3) length_meta[of "openssl e" "pemFiles (matches raw)"] length_pemFiles[of "matches raw"]
    by (metis length_0_conv)
  then have l: "leaf ?mt = Some (?mt ! nat (leafIndex ?mt))"
    by (rule leaf_Some)
  show ?thesis
    using assms by (simp add: script_def Let_def l)
qed

lemma script_exit0:
  assumes "fst (script e) = Exit 0"
  shows "\<exists>raw. 3 \<le> length (argv e) \<and> readFileSync e (argv e ! 2) = Some raw \<and> matches raw \<noteq> []"
  using assms
  by (auto simp: script_def Let_def split: if_splits option.splits)

lemma nth_pemFiles:
  "i < length ms \<Longrightarrow>
   pemFiles ms ! i = \<lparr>path = CertPem (i + 1), pem = encode (ms ! i), rawB64 = cleanedB64 (ms ! i)\<rparr>"
  by (simp add: pemFiles_def)

lemma cert_write_mem:
  assumes "1 \<le> n" "n \<le> length ms"
  shows "WriteFile (CertPem n) (Text (encode (ms ! (n - 1)))) \<in>
         set (map (\<lambda>p. WriteFile (path p) (Text (pem p))) (pemFiles ms))"
proof -
  from assms have i: "n - 1 < length ms" by simp
  then have "n - 1 < length (pemFiles ms)" by (simp add: length_pemFiles)
  then have "pemFiles ms ! (n - 1) \<in> set (pemFiles ms)" by (rule nth_mem)
  then have "\<lparr>path = CertPem n, pem = encode (ms ! (n - 1)), rawB64 = cleanedB64 (ms ! (n - 1))\<rparr>
      \<in> set (pemFiles ms)"
    using nth_pemFiles[OF i] assms(1) by simp
  then have "(\<lambda>p. WriteFile (path p) (Text (pem p)))
       \<lparr>path = CertPem n, pem = encode (ms ! (n - 1)), rawB64 = cleanedB64 (ms ! (n - 1))\<rparr>
      \<in> (\<lambda>p. WriteFile (path p) (Text (pem p))) ` set (pemFiles ms)"
    by (rule imageI)
  then show ?thesis by simp
qed

lemma pem_pemFiles: "p \<in> set (pemFiles ms) \<Longrightarrow> \<exists>b64. pem p = encode b64"
  by (auto simp: pemFiles_def dest!: set_zip_leftD)

lemma pem_meta: "m \<in> set (meta tool (pemFiles ms)) \<Longrightarrow> \<exists>b64. pem m = encode b64"
proof -
  assume "m \<in> set (meta tool (pemFiles ms))"
  then obtain p where p: "p \<in> set (pemFiles ms)" "pem m = pem p"
    by (auto simp: meta_def Let_def split: if_splits)
  with pem_pemFiles[OF p(1)] show ?thesis by simp
qed

lemma join_butlast:
  "ps \<noteq> [] \<Longrightarrow> join sep ps = concat (map (\<lambda>p. p @ sep) (butlast ps)) @ last ps"
  by (induction sep ps rule: join.induct) simp_all

lemma combined_join: "combined chain = join [LF] (map pem chain)"
  by (simp add: combined_def)

lemma path_pemFiles: "p \<in> set (pemFiles ms) \<Longrightarrow> \<exists>n. path p = CertPem n"
  by (auto simp: pemFiles_def)

lemma set_take_drop_subset: "set (take i xs @ drop j xs) \<subseteq> set xs"
proof -
  have "set (take i xs) \<subseteq> set xs" by (rule set_take_subset)
  moreover have "set (drop j xs) \<subseteq> set xs" by (rule set_drop_subset)
  ultimately show ?thesis by simp
qed

lemma certs_paths:
  "WriteFile q t \<in> set (map (\<lambda>p. WriteFile (path p) (Text (pem p))) (pemFiles ms)) \<Longrightarrow>
   \<exists>n b64. q = CertPem n \<and> t = Text (encode b64)"
  by (auto simp: pemFiles_def)

lemma script_effects:
  "\<exists>ms mk tail.
      (mk = [] \<or> mk = [Mkdir]) \<and>
      (tail = [] \<or>
       (\<exists>l c. tail = [WriteFile CertificatePem (Text l), WriteFile CertificateChainPem (Text c),
                       WriteFile UploadReadyJson (UploadJson l c)])) \<and>
      snd (script e) = mk @ map (\<lambda>p. WriteFile (path p) (Text (pem p))) (pemFiles ms) @ tail"
proof -
  have none: ?thesis if "snd (script e) = []"
  proof -
    have "([]::effect list) = [] \<or> ([]::effect list) = [Mkdir]" by simp
    moreover have "([]::effect list) = [] \<or>
       (\<exists>l c. ([]::effect list) = [WriteFile CertificatePem (Text l),
           WriteFile CertificateChainPem (Text c), WriteFile UploadReadyJson (UploadJson l c)])"
      by simp
    moreover have "snd (script e) =
        [] @ map (\<lambda>p. WriteFile (path p) (Text (pem p))) (pemFiles []) @ []"
      using that by (simp add: pemFiles_def)
    ultimately show ?thesis by blast
  qed
  show ?thesis
  proof (cases "3 \<le> length (argv e)")
    case False
    then have "snd (script e) = []" by (simp add: script_def)
    then show ?thesis by (rule none)
  next
    case a: True
    show ?thesis
    proof (cases "readFileSync e (argv e ! 2)")
      case None
      with a have "snd (script e) = []" by (simp add: script_def)
      then show ?thesis by (rule none)
    next
      case (Some raw)
      show ?thesis
      proof (cases "matches raw = []")
        case True
        with a Some have "snd (script e) = []" by (simp add: script_def)
        then show ?thesis by (rule none)
      next
        case False
        let ?mk = "if existsSync_outDir e then [] else [Mkdir]"
        let ?mt = "meta (openssl e) (pemFiles (matches raw))"
        let ?tail = "[WriteFile CertificatePem (Text (pem (?mt ! nat (leafIndex ?mt)))),
              WriteFile CertificateChainPem (Text (combined (chainCerts ?mt))),
              WriteFile UploadReadyJson
                (UploadJson (pem (?mt ! nat (leafIndex ?mt))) (combined (chainCerts ?mt)))]"
        have 1: "?mk = [] \<or> ?mk = [Mkdir]" by simp
        have 2: "?tail = [] \<or>
              (\<exists>l c. ?tail = [WriteFile CertificatePem (Text l), WriteFile CertificateChainPem (Text c),
                       WriteFile UploadReadyJson (UploadJson l c)])"
          by blast
        have 3: "snd (script e) =
              ?mk @ map (\<lambda>p. WriteFile (path p) (Text (pem p))) (pemFiles (matches raw)) @ ?tail"
          by (simp only: script_success[OF a Some False] snd_conv)
        from 1 2 3 show ?thesis by blast
      qed
    qed
  qed
qed

lemma matches_three_blocks: "matches three_blocks = [lit ''QQ=='', lit ''Qg=='', lit ''Qw=='']"
  by (simp add: three_blocks_def matches_def extractor_def pemMatches_def pemRegex.simps
      header_def footer_def lit_def LF_def CR_def trim_def is_space_def)

text \<open>
  Claim C9. Without the input argument the run ends with exit code 2 and has no effect
  on the file system. When the three strategies yield nothing it ends with exit code 3
  and has no effect either, the output directory included. When the extractor yields
  payloads the run ends with exit code 0 after writing one file per payload, the leaf
  file, the chain file and the upload document. Exit code 0 is reached only with at
  least one payload, and the three outcomes differ.
\<close>

theorem exit_outcomes:
  "(length (argv e) < 3 \<longrightarrow> script e = (Exit 2, [])) \<and>
   (3 \<le> length (argv e) \<and> readFileSync e (argv e ! 2) = Some raw \<and>
    pemMatches raw = [] \<and> base64Matches raw = [] \<and> potential raw = [] \<longrightarrow>
      script e = (Exit 3, [])) \<and>
   (3 \<le> length (argv e) \<and> readFileSync e (argv e ! 2) = Some raw \<and> matches raw \<noteq> [] \<longrightarrow>
      fst (script e) = Exit 0 \<and>
      (\<forall>n. 1 \<le> n \<and> n \<le> length (matches raw) \<longrightarrow>
         WriteFile (CertPem n) (Text (encode (matches raw ! (n - 1)))) \<in> set (snd (script e))) \<and>
      (\<exists>l c. WriteFile CertificatePem (Text l) \<in> set (snd (script e)) \<and>
             WriteFile CertificateChainPem (Text c) \<in> set (snd (script e)) \<and>
             WriteFile UploadReadyJson (UploadJson l c) \<in> set (snd (script e)))) \<and>
   (fst (script e) = Exit 0 \<longrightarrow>
      (\<exists>r. 3 \<le> length (argv e) \<and> readFileSync e (argv e ! 2) = Some r \<and> matches r \<noteq> [])) \<and>
   Exit 2 \<noteq> Exit 3 \<and> Exit 2 \<noteq> Exit 0 \<and> Exit 3 \<noteq> Exit 0"
proof (intro conjI impI allI)
  assume "length (argv e) < 3"
  then show "script e = (Exit 2, [])" by (rule script_usage)
next
  assume a: "3 \<le> length (argv e) \<and> readFileSync e (argv e ! 2) = Some raw \<and>
    pemMatches raw = [] \<and> base64Matches raw = [] \<and> potential raw = []"
  then have "matches raw = []" by (simp add: matches_empty_iff)
  with a show "script e = (Exit 3, [])" by (simp add: script_empty)
next
  assume a: "3 \<le> length (argv e) \<and> readFileSync e (argv e ! 2) = Some raw \<and> matches raw \<noteq> []"
  then have s: "3 \<le> length (argv e)" "readFileSync e (argv e ! 2) = Some raw" "matches raw \<noteq> []"
    by simp_all
  note eq = script_success[OF s]
  show "fst (script e) = Exit 0" by (simp only: eq fst_conv)
  show "\<exists>l c. WriteFile CertificatePem (Text l) \<in> set (snd (script e)) \<and>
             WriteFile CertificateChainPem (Text c) \<in> set (snd (script e)) \<and>
             WriteFile UploadReadyJson (UploadJson l c) \<in> set (snd (script e))"
    unfolding eq snd_conv by auto
  fix n
  assume "1 \<le> n \<and> n \<le> length (matches raw)"
  then have "WriteFile (CertPem n) (Text (encode (matches raw ! (n - 1)))) \<in>
         set (map (\<lambda>p. WriteFile (path p) (Text (pem p))) (pemFiles (matches raw)))"
    using cert_write_mem[of n "matches raw"] by simp
  then show "WriteFile (CertPem n) (Text (encode (matches raw ! (n - 1)))) \<in> set (snd (script e))"
    unfolding eq snd_conv by (simp only: set_append UnI1 UnI2)
next
  assume "fst (script e) = Exit 0"
  then show "\<exists>r. 3 \<le> length (argv e) \<and> readFileSync e (argv e ! 2) = Some r \<and> matches r \<noteq> []"
    by (rule script_exit0)
qed simp_all

theorem exit_outcomes_witness:
  "script no_arguments = (Exit 2, []) \<and> script (run_on []) = (Exit 3, []) \<and>
   fst (script (run_on three_blocks)) = Exit 0 \<and>
   WriteFile (CertPem 3) (Text (encode (lit ''Qw==''))) \<in> set (snd (script (run_on three_blocks)))"
proof -
  have "length (argv no_arguments) < 3" by (simp add: no_arguments_def)
  with exit_outcomes[of no_arguments] have 1: "script no_arguments = (Exit 2, [])"
    by blast
  have "3 \<le> length (argv (run_on [])) \<and> readFileSync (run_on []) (argv (run_on []) ! 2) = Some [] \<and>
        pemMatches [] = [] \<and> base64Matches [] = [] \<and> potential [] = []"
    by (simp add: run_on_def pemMatches_def pemRegex.simps header_def lit_def base64Matches_def
        cleaned_def potential_def trim_def test_whole_i_def footer_def base64_line_def)
  with exit_outcomes[of "run_on []" "[]"] have 2: "script (run_on []) = (Exit 3, [])"
    by blast
  have h: "3 \<le> length (argv (run_on three_blocks)) \<and>
        readFileSync (run_on three_blocks) (argv (run_on three_blocks) ! 2) = Some three_blocks \<and>
        matches three_blocks \<noteq> []"
    by (simp add: run_on_def matches_three_blocks)
  have n: "(1::nat) \<le> 3 \<and> 3 \<le> length (matches three_blocks)"
    by (simp add: matches_three_blocks)
  from exit_outcomes[of "run_on three_blocks" three_blocks] h n
  have "fst (script (run_on three_blocks)) = Exit 0 \<and>
        WriteFile (CertPem 3) (Text (encode (matches three_blocks ! (3 - 1)))) \<in>
          set (snd (script (run_on three_blocks)))"
    by blast
  then have 3: "fst (script (run_on three_blocks)) = Exit 0 \<and>
        WriteFile (CertPem 3) (Text (encode (lit ''Qw==''))) \<in>
          set (snd (script (run_on three_blocks)))"
    by (simp add: matches_three_blocks)
  from 1 2 3 show ?thesis by blast
qed

text \<open>
  Claim C4, amended. In a run that extracts at least one payload the chain file is
  written once, with the PEM texts of the chain certificates in chain order joined by
  one line feed. Every PEM text ends in a line feed already, so an empty line separates
  two consecutive certificates; a chain of one certificate is its PEM text unchanged.
  With an empty chain the file is written with empty content and the run still ends
  with exit code 0.
\<close>

theorem chain_file_content:
  assumes "3 \<le> length (argv e)" and "readFileSync e (argv e ! 2) = Some raw"
    and "matches raw \<noteq> []"
    and "chain = chainCerts (meta (openssl e) (pemFiles (matches raw)))"
  shows "fst (script e) = Exit 0 \<and>
         WriteFile CertificateChainPem (Text (join [LF] (map pem chain))) \<in> set (snd (script e)) \<and>
         (\<forall>t. WriteFile CertificateChainPem t \<in> set (snd (script e)) \<longrightarrow>
              t = Text (join [LF] (map pem chain))) \<and>
         (\<forall>c\<in>set chain. \<exists>b. pem c = b @ [LF]) \<and>
         (chain = [] \<longrightarrow> join [LF] (map pem chain) = []) \<and>
         (chain \<noteq> [] \<longrightarrow>
            join [LF] (map pem chain) =
              concat (map (\<lambda>c. pem c @ [LF]) (butlast chain)) @ pem (last chain))"
proof -
  let ?mt = "meta (openssl e) (pemFiles (matches raw))"
  note eq = script_success[OF assms(1-3)]
  have c: "combined (chainCerts ?mt) = join [LF] (map pem chain)"
    by (simp add: combined_join assms(4))
  have 1: "fst (script e) = Exit 0" by (simp only: eq fst_conv)
  have 2: "WriteFile CertificateChainPem (Text (join [LF] (map pem chain))) \<in> set (snd (script e))"
    unfolding eq snd_conv c by simp
  have 3: "\<forall>t. WriteFile CertificateChainPem t \<in> set (snd (script e)) \<longrightarrow>
              t = Text (join [LF] (map pem chain))"
    unfolding eq snd_conv c by (auto dest!: path_pemFiles)
  have "set chain \<subseteq> set ?mt"
    unfolding assms(4) chainCerts_eq by (rule set_take_drop_subset)
  then have 4: "\<forall>c\<in>set chain. \<exists>b. pem c = b @ [LF]"
    using pem_meta[of _ "openssl e" "matches raw"] by (fastforce simp: encode_def)
  have 5: "chain = [] \<longrightarrow> join [LF] (map pem chain) = []" by simp
  have 6: "chain \<noteq> [] \<longrightarrow>
            join [LF] (map pem chain) =
              concat (map (\<lambda>c. pem c @ [LF]) (butlast chain)) @ pem (last chain)"
    by (simp add: join_butlast map_butlast last_map comp_def)
  from 1 2 3 4 5 6 show ?thesis by blast
qed

theorem chain_file_content_witness:
  "fst (script (run_on three_blocks)) = Exit 0 \<and>
   WriteFile CertificateChainPem (Text (encode (lit ''Qg=='') @ [LF] @ encode (lit ''Qw==''))) \<in>
     set (snd (script (run_on three_blocks)))"
proof -
  let ?e = "run_on three_blocks"
  have a1: "3 \<le> length (argv ?e)" by (simp add: run_on_def)
  have a2: "readFileSync ?e (argv ?e ! 2) = Some three_blocks" by (simp add: run_on_def)
  have a3: "matches three_blocks \<noteq> []" by (simp add: matches_three_blocks)
  have j: "join [LF] (map pem (chainCerts (meta (openssl ?e) (pemFiles (matches three_blocks))))) =
           encode (lit ''Qg=='') @ [LF] @ encode (lit ''Qw=='')"
    unfolding matches_three_blocks
    by (simp add: run_on_def no_reader_def pemFiles_def meta_def opensslInspect_def truthy_def
        chainCerts_def leafIndex_def candidate_def is_candidate_def)
  from chain_file_content[OF a1 a2 a3 refl]
  have "fst (script ?e) = Exit 0 \<and>
        WriteFile CertificateChainPem
          (Text (join [LF] (map pem (chainCerts (meta (openssl ?e) (pemFiles (matches three_blocks)))))))
          \<in> set (snd (script ?e))"
    by blast
  then show ?thesis by (simp only: j)
qed

text \<open>
  Claim C4 as stated fails on a chain of two certificates: the file written differs
  from the plain concatenation of the two PEM texts by the line feed between them.
\<close>

theorem chain_file_separator_counterexample:
  "snd (script (run_on three_blocks)) =
     [Mkdir,
      WriteFile (CertPem 1) (Text (encode (lit ''QQ==''))),
      WriteFile (CertPem 2) (Text (encode (lit ''Qg==''))),
      WriteFile (CertPem 3) (Text (encode (lit ''Qw==''))),
      WriteFile CertificatePem (Text (encode (lit ''QQ==''))),
      WriteFile CertificateChainPem
        (Text (encode (lit ''Qg=='') @ [LF] @ encode (lit ''Qw==''))),
      WriteFile UploadReadyJson
        (UploadJson (encode (lit ''QQ=='')) (encode (lit ''Qg=='') @ [LF] @ encode (lit ''Qw=='')))] \<and>
   encode (lit ''Qg=='') @ [LF] @ encode (lit ''Qw=='') \<noteq>
     encode (lit ''Qg=='') @ encode (lit ''Qw=='')"
  by (simp add: three_blocks_def script_def run_on_def no_reader_def matches_def extractor_def
      pemMatches_def pemRegex.simps header_def footer_def lit_def LF_def CR_def trim_def
      is_space_def pemFiles_def meta_def opensslInspect_def truthy_def leaf_def leafIndex_def
      candidate_def is_candidate_def chainCerts_def combined_def encode_def cleanedB64_def
      wrap64_def is_base64_def is_line_terminator_def Let_def)

text \<open>
  Claim C10. Every per-certificate file that a run writes has a body, between the header
  line and the footer line, that holds only code units of the base64 alphabet and the
  line feeds that end its lines, whatever the extracted payload contained: with the line
  feeds set aside, the body is a string over the base64 alphabet.
\<close>

theorem cert_file_bodies:
  assumes "WriteFile (CertPem n) (Text p) \<in> set (snd (script e))"
  shows "\<exists>body. pem_body p = Some body \<and> (\<forall>c\<in>set body. is_base64 c \<or> c = LF) \<and>
           decode_body p = Some (filter (\<lambda>c. c \<noteq> LF) body) \<and>
           (\<forall>c\<in>set (filter (\<lambda>c. c \<noteq> LF) body). is_base64 c)"
proof -
  obtain ms mk tail where
    mk: "mk = [] \<or> mk = [Mkdir]" and
    tail: "tail = [] \<or> (\<exists>l c. tail = [WriteFile CertificatePem (Text l),
             WriteFile CertificateChainPem (Text c), WriteFile UploadReadyJson (UploadJson l c)])" and
    eff: "snd (script e) = mk @ map (\<lambda>p. WriteFile (path p) (Text (pem p))) (pemFiles ms) @ tail"
    using script_effects[of e] by blast
  have "WriteFile (CertPem n) (Text p) \<notin> set mk"
    using mk by auto
  moreover have "WriteFile (CertPem n) (Text p) \<notin> set tail"
    using tail by auto
  ultimately have "WriteFile (CertPem n) (Text p) \<in>
        set (map (\<lambda>p. WriteFile (path p) (Text (pem p))) (pemFiles ms))"
    using assms unfolding eff by (simp only: set_append Un_iff) blast
  from certs_paths[OF this] obtain b64 where "p = encode b64" by auto
  with encode_body_base64[of b64] obtain body where
    b: "pem_body p = Some body" "\<forall>c\<in>set body. is_base64 c \<or> c = LF"
    by auto
  from b(1) have "decode_body p = Some (filter (\<lambda>c. c \<noteq> LF) body)"
    by (simp add: decode_body_def)
  moreover from b(2) have "\<forall>c\<in>set (filter (\<lambda>c. c \<noteq> LF) body). is_base64 c"
    by auto
  ultimately show ?thesis using b by blast
qed

theorem cert_file_bodies_witness:
  "WriteFile (CertPem 1) (Text (encode (lit ''Q!U JD*''))) \<in> set (snd (script (run_on garbage_block))) \<and>
   (\<exists>body. pem_body (encode (lit ''Q!U JD*'')) = Some body \<and>
      (\<forall>c\<in>set body. is_base64 c \<or> c = LF) \<and>
      decode_body (encode (lit ''Q!U JD*'')) = Some (filter (\<lambda>c. c \<noteq> LF) body) \<and>
      (\<forall>c\<in>set (filter (\<lambda>c. c \<noteq> LF) body). is_base64 c))"
proof -
  have w: "WriteFile (CertPem 1) (Text (encode (lit ''Q!U JD*''))) \<in>
           set (snd (script (run_on garbage_block)))"
    by (simp add: garbage_block_def script_def run_on_def no_reader_def matches_def extractor_def
        pemMatches_def pemRegex.simps header_def footer_def lit_def LF_def CR_def trim_def
        is_space_def pemFiles_def meta_def opensslInspect_def truthy_def leaf_def leafIndex_def
        candidate_def is_candidate_def chainCerts_def combined_def encode_def cleanedB64_def
        wrap64_def is_base64_def is_line_terminator_def Let_def)
  from cert_file_bodies[OF w] w show ?thesis by blast
qed

end
